theory Spec2Isabelle
  imports Main "HOL-Library.Word" "HOL-Library.Signed_Division"
begin

unbundle bit_operations_syntax

section \<open>Data structures (data\_structures.h)\<close>

text \<open>
  The C types are embedded as follows.  \<^verbatim>\<open>long\<close> (the fields of
  \<^verbatim>\<open>struct timespec\<close>) is a 64-bit word read as two's complement, since the
  producer stores \<^verbatim>\<open>LONG_MAX\<close> in it and the monitor compares against that value.
  \<^verbatim>\<open>slot_id\<close> is a 32-bit word because the code uses it as a bit mask, and so
  are the two \<^verbatim>\<open>int\<close> fields of the ring of buffers, which the code multiplies by
  the sizes of the buffers.  The remaining \<^verbatim>\<open>int\<close> fields (\<^verbatim>\<open>cu\<close>,
  \<^verbatim>\<open>size\<close>, counters) are only compared, incremented and decremented by small
  amounts; they are mathematical integers.
  \<^verbatim>\<open>kernel_label_t\<close> is an enumeration whose value is assigned from an
  \<^verbatim>\<open>int\<close> buffer without any conversion check, so a label is an integer.
\<close>

type_synonym long = "64 word"

record timespec =
  tv_sec :: long
  tv_nsec :: long

definition NS_PER_SECOND :: long where
  "NS_PER_SECOND = 1000000000"

definition LONG_MAX :: long where
  "LONG_MAX = 9223372036854775807"

definition TYPES_OF_KERNELS :: int where
  "TYPES_OF_KERNELS = 11"

definition NUM_SLOTS :: nat where
  "NUM_SLOTS = 8"

text \<open>The sizes in bytes of the three buffers of a monitoring window.\<close>

definition POWER_FILE_SIZE :: int where
  "POWER_FILE_SIZE = 525 * 1024"

definition TRACES_FILE_SIZE :: int where
  "TRACES_FILE_SIZE = 20 * 1024"

definition ONLINE_FILE_SIZE :: int where
  "ONLINE_FILE_SIZE = 2 * 1024"

record kernel_data =
  initial_time :: timespec
  temp_id :: int
  kernel_label :: int
  num_executions :: int
  intended_arrival_time_ms :: long
  commanded_arrival_time :: timespec
  measured_arrival_time :: timespec
  measured_finish_time :: timespec
  measured_pre_execution_time :: timespec
  measured_post_execution_time :: timespec
  cu :: int
  slot_id :: "32 word"

record monitor_data =
  mon_initial_time :: timespec
  measured_starting_time :: timespec
  mon_measured_finish_time :: timespec

record online_data =
  od_kernel_label :: int
  arrival_time :: timespec
  finish_time :: timespec

section \<open>Timer functions (support.c)\<close>

definition greater_than_timespec :: "timespec \<Rightarrow> timespec \<Rightarrow> bool" where
  "greater_than_timespec l_val r_val =
     (if tv_sec l_val = tv_sec r_val then tv_nsec r_val <s tv_nsec l_val
      else tv_sec r_val <s tv_sec l_val)"

definition less_than_timespec :: "timespec \<Rightarrow> timespec \<Rightarrow> bool" where
  "less_than_timespec l_val r_val =
     (if tv_sec l_val = tv_sec r_val then tv_nsec l_val <s tv_nsec r_val
      else tv_sec l_val <s tv_sec r_val)"

definition equal_to_timespec :: "timespec \<Rightarrow> timespec \<Rightarrow> bool" where
  "equal_to_timespec l_val r_val =
     (if tv_sec l_val = tv_sec r_val \<and> tv_nsec l_val = tv_nsec r_val then True else False)"

text \<open>
  \<^verbatim>\<open>add_timespec\<close>: both fields are added, then one second is carried when the
  nanoseconds are strictly greater than \<^verbatim>\<open>NS_PER_SECOND\<close>.
\<close>

definition add_timespec :: "timespec \<Rightarrow> timespec \<Rightarrow> timespec" where
  "add_timespec a b =
     (let tmp = \<lparr>tv_sec = tv_sec a + tv_sec b, tv_nsec = tv_nsec a + tv_nsec b\<rparr>
      in if NS_PER_SECOND <s tv_nsec tmp
         then \<lparr>tv_sec = tv_sec tmp + 1, tv_nsec = tv_nsec tmp - NS_PER_SECOND\<rparr>
         else tmp)"

text \<open>
  \<^verbatim>\<open>update_timer_ms\<close>: C division and remainder truncate towards zero
  (\<open>sdiv\<close>, \<open>smod\<close> on the signed values).  On negative nanoseconds the code only
  prints a diagnostic.
\<close>

definition update_timer_ms :: "timespec \<Rightarrow> long \<Rightarrow> timespec" where
  "update_timer_ms time msec =
     (let sec1 = tv_sec time + word_of_int (sint msec sdiv 1000);
          remaining_ms = (word_of_int (sint msec smod 1000) :: long);
          nsec = remaining_ms * 1000000;
          nsec1 = tv_nsec time + nsec
      in if NS_PER_SECOND \<le>s nsec1
         then \<lparr>tv_sec = sec1 + word_of_int (sint nsec1 sdiv sint NS_PER_SECOND),
               tv_nsec = word_of_int (sint nsec1 smod sint NS_PER_SECOND)\<rparr>
         else \<lparr>tv_sec = sec1, tv_nsec = nsec1\<rparr>)"

section \<open>The linked-list kernel queue (queue\_kernel.c)\<close>

text \<open>
  A queue is the chain of nodes reachable from \<^verbatim>\<open>head\<close> through
  \<^verbatim>\<open>next\<close>, held as the list of the nodes' data in chain order, together with
  the \<^verbatim>\<open>size\<close> field, which the code maintains separately from the chain.
  \<^verbatim>\<open>head == NULL\<close> is the empty list; \<^verbatim>\<open>tail\<close> always designates the
  last node of the chain and is not stored.  A function with an out-parameter
  \<^verbatim>\<open>kernel_data *d\<close> takes the previous content of \<^verbatim>\<open>*d\<close> and returns
  the return code, the queue and the new content of \<^verbatim>\<open>*d\<close>.  The outcome of
  \<^verbatim>\<open>malloc\<close> is an argument of the functions that allocate a node.
\<close>

record queue =
  nodes :: "kernel_data list"
  size :: int

definition init_queue :: queue where
  "init_queue = \<lparr>nodes = [], size = 0\<rparr>"

definition clean_queue :: "queue \<Rightarrow> queue" where
  "clean_queue q = \<lparr>nodes = [], size = 0\<rparr>"

definition enqueue :: "bool \<Rightarrow> queue \<Rightarrow> kernel_data \<Rightarrow> int \<times> queue" where
  "enqueue malloc_ok q d =
     (if \<not> malloc_ok then (-1, q)
      else (0, q\<lparr>nodes := nodes q @ [d], size := size q + 1\<rparr>))"

definition dequeue :: "queue \<Rightarrow> kernel_data \<Rightarrow> int \<times> queue \<times> kernel_data" where
  "dequeue q d =
     (case nodes q of
        [] \<Rightarrow> (-1, q, d)
      | tmp # rest \<Rightarrow> (0, q\<lparr>nodes := rest, size := size q - 1\<rparr>, tmp))"

text \<open>
  The positional walk of \<^verbatim>\<open>dequeue_from\<close>: \<open>pre\<close> is the chain up to and
  including \<^verbatim>\<open>prev\<close>, the list argument is the chain starting at \<^verbatim>\<open>tmp\<close>.
  \<open>None\<close> is the early \<^verbatim>\<open>return -1\<close> taken when \<^verbatim>\<open>prev->next == NULL\<close>.
\<close>

fun walk_to :: "int \<Rightarrow> int \<Rightarrow> kernel_data list \<Rightarrow> kernel_data list
    \<Rightarrow> (kernel_data list \<times> kernel_data \<times> kernel_data list) option" where
  "walk_to i pos pre [] = None"
| "walk_to i pos pre (tmp # rest) =
     (if i \<le> pos then walk_to (i + 1) pos (pre @ [tmp]) rest
      else Some (pre, tmp, rest))"

text \<open>
  \<^verbatim>\<open>dequeue_from\<close>.  For \<^verbatim>\<open>pos == 0\<close> it calls \<^verbatim>\<open>dequeue\<close> and then
  falls through to the common \<^verbatim>\<open>(q->size)--\<close> at the end of the function.
  Otherwise the walk starts with \<^verbatim>\<open>prev = NULL\<close> (empty \<open>pre\<close>) and
  \<^verbatim>\<open>tmp = q->head\<close>.  For a negative position the loop body never runs and the
  code dereferences the null \<^verbatim>\<open>prev\<close>; that outcome is \<open>None\<close>.
\<close>

definition dequeue_from :: "queue \<Rightarrow> int \<Rightarrow> kernel_data \<Rightarrow> (int \<times> queue \<times> kernel_data) option" where
  "dequeue_from q pos d =
     (if nodes q = [] then Some (-1, q, d)
      else if pos = 0 then
        (case dequeue q d of (r, q1, d1) \<Rightarrow>
           if r < 0 then Some (-1, q1, d1)
           else Some (0, q1\<lparr>size := size q1 - 1\<rparr>, d1))
      else
        (case walk_to 1 pos [] (nodes q) of
           None \<Rightarrow> Some (-1, q, d)
         | Some (pre, tmp, post) \<Rightarrow>
             if pre = [] then None
             else Some (0, q\<lparr>nodes := pre @ post, size := size q - 1\<rparr>, tmp)))"

text \<open>
  The \<^verbatim>\<open>do ... while\<close> loop of \<^verbatim>\<open>dequeue_first_executable_kernel\<close>:
  \<open>pre\<close> is the chain up to and including \<^verbatim>\<open>prev\<close>, the list argument is
  \<^verbatim>\<open>prev->next\<close>.  The loop continues while
  \<^verbatim>\<open>tmp->data.cu > free_slots || duplicated_kernels[label] == 1\<close>.
  The table \<^verbatim>\<open>const int *duplicated_kernels\<close> is the function giving the
  integer stored at each index.
\<close>

fun scan_rest :: "int \<Rightarrow> (int \<Rightarrow> int) \<Rightarrow> kernel_data list \<Rightarrow> kernel_data list
    \<Rightarrow> (kernel_data list \<times> kernel_data \<times> kernel_data list) option" where
  "scan_rest free_slots duplicated_kernels pre [] = None"
| "scan_rest free_slots duplicated_kernels pre (tmp # rest) =
     (if free_slots < cu tmp \<or> duplicated_kernels (kernel_label tmp) = 1
      then scan_rest free_slots duplicated_kernels (pre @ [tmp]) rest
      else Some (pre, tmp, rest))"

definition dequeue_first_executable_kernel ::
    "queue \<Rightarrow> int \<Rightarrow> (int \<Rightarrow> int) \<Rightarrow> kernel_data \<Rightarrow> int \<times> queue \<times> kernel_data" where
  "dequeue_first_executable_kernel q free_slots duplicated_kernels d =
     (case nodes q of
        [] \<Rightarrow> (-1, q, d)
      | tmp # rest \<Rightarrow>
          if cu tmp \<le> free_slots \<and> duplicated_kernels (kernel_label tmp) = 0
          then (0, q\<lparr>nodes := rest, size := size q - 1\<rparr>, tmp)
          else
            (case scan_rest free_slots duplicated_kernels [tmp] rest of
               None \<Rightarrow> (-1, q, d)
             | Some (pre, t, post) \<Rightarrow>
                 (0, q\<lparr>nodes := pre @ post, size := size q - 1\<rparr>, t)))"

definition is_queue_empty :: "queue \<Rightarrow> int" where
  "is_queue_empty q = (if nodes q = [] then 1 else 0)"

definition get_size_queue :: "queue \<Rightarrow> int" where
  "get_size_queue q = size q"


definition enqueue_and_modify :: "bool \<Rightarrow> queue \<Rightarrow> kernel_data \<Rightarrow> nat option \<times> queue" where
  "enqueue_and_modify malloc_ok q d =
     (if \<not> malloc_ok then (None, q)
      else (Some (length (nodes q)), q\<lparr>nodes := nodes q @ [d], size := size q + 1\<rparr>))"

section \<open>The producer (main, setup.c)\<close>

text \<open>
  The three input files are the arrays \<^verbatim>\<open>kernel_label_buffer\<close>,
  \<^verbatim>\<open>num_executions_buffer\<close> and \<^verbatim>\<open>inter_arrival_buffer\<close>, given as the
  value found at each index; the inter-arrival value is taken after its conversion to
  \<^verbatim>\<open>long\<close>.  \<open>rand_values i\<close> is what the call of \<^verbatim>\<open>rand()\<close> in iteration
  \<open>i\<close> returns, and \<open>generation_malloc i\<close> tells whether the allocation of that
  iteration succeeds.  The loop bound \<^verbatim>\<open>NUM_KERNELS\<close> is an argument of the loops.
\<close>

record workload =
  kernel_label_buffer :: "nat \<Rightarrow> int"
  num_executions_buffer :: "nat \<Rightarrow> int"
  inter_arrival_buffer :: "nat \<Rightarrow> long"
  rand_values :: "nat \<Rightarrow> nat"
  generation_malloc :: "nat \<Rightarrow> bool"

definition NUM_KERNELS :: int where
  "NUM_KERNELS = 20000"

definition tmp_cu :: "int list" where
  "tmp_cu = [1, 2, 4, 8]"

definition zero_timespec :: timespec where
  "zero_timespec = \<lparr>tv_sec = 0, tv_nsec = 0\<rparr>"

text \<open>
  The record built by one iteration of the filling loop: \<^verbatim>\<open>memset\<close> to zero, the
  fields read from the buffers, the two measured times set to
  \<^verbatim>\<open>(LONG_MAX, LONG_MAX)\<close>, the width drawn from \<^verbatim>\<open>tmp_cu\<close>, and the
  commanded arrival time taken from the updated schedule timer.
\<close>

definition aux_kernel_data :: "workload \<Rightarrow> timespec \<Rightarrow> timespec \<Rightarrow> nat \<Rightarrow> kernel_data" where
  "aux_kernel_data w init_time schedule_timer i =
     \<lparr>initial_time = init_time,
      temp_id = int i,
      kernel_label = kernel_label_buffer w i,
      num_executions = num_executions_buffer w i,
      intended_arrival_time_ms = inter_arrival_buffer w i,
      commanded_arrival_time = update_timer_ms schedule_timer (inter_arrival_buffer w i),
      measured_arrival_time = \<lparr>tv_sec = LONG_MAX, tv_nsec = LONG_MAX\<rparr>,
      measured_finish_time = \<lparr>tv_sec = LONG_MAX, tv_nsec = LONG_MAX\<rparr>,
      measured_pre_execution_time = zero_timespec,
      measured_post_execution_time = zero_timespec,
      cu = tmp_cu ! (rand_values w i mod 4),
      slot_id = 0\<rparr>"

text \<open>
  The filling loop of \<^verbatim>\<open>main\<close> (\<^verbatim>\<open>for(i = 0; i < NUM_KERNELS; i++)\<close>).
  The only exit is the failure of \<^verbatim>\<open>enqueue\<close>, which ends the process
  (\<open>None\<close>).
\<close>

function fill_generation_queue ::
    "nat \<Rightarrow> workload \<Rightarrow> timespec \<Rightarrow> nat \<Rightarrow> timespec \<times> queue \<Rightarrow> (timespec \<times> queue) option" where
  "fill_generation_queue nk w init_time i (schedule_timer, q) =
     (if i < nk then
        (let d = aux_kernel_data w init_time schedule_timer i
         in case enqueue (generation_malloc w i) q d of
              (r, q1) \<Rightarrow>
                if r < 0 then None
                else fill_generation_queue nk w init_time (i + 1) (commanded_arrival_time d, q1))
      else Some (schedule_timer, q))"
  by pat_completeness auto
termination
  by (relation "measure (\<lambda>(nk, w, init_time, i, st). nk - i)") auto

declare fill_generation_queue.simps [simp del]

section \<open>Slot occupancy (queue\_manager\_thread and execution\_thread, setup.c)\<close>

text \<open>
  \<^verbatim>\<open>slots_in_use\<close> is the global array of \<^verbatim>\<open>NUM_SLOTS\<close> integers, held as
  a list of that length.  The selection loop of the scheduler:
  \<^verbatim>\<open>for(i = 0, j = 0; i < NUM_SLOTS; i++) if(slots_in_use[i] == 0) { slots_in_use[i] = 1;
  slot_id |= (1 << i); j++; if(cu == j) break; }\<close>.
\<close>

function select_slots :: "nat \<Rightarrow> int \<Rightarrow> int \<Rightarrow> int list \<Rightarrow> 32 word \<Rightarrow> int list \<times> 32 word" where
  "select_slots i j cu_k slots sid =
     (if i < NUM_SLOTS then
        (if slots ! i = 0 then
           (if cu_k = j + 1 then (slots[i := 1], sid OR push_bit i 1)
            else select_slots (i + 1) (j + 1) cu_k (slots[i := 1]) (sid OR push_bit i 1))
         else select_slots (i + 1) j cu_k slots sid)
      else (slots, sid))"
  by pat_completeness auto
termination
  by (relation "measure (\<lambda>(i, j, cu_k, slots, sid). NUM_SLOTS - i)") auto

declare select_slots.simps [simp del]

text \<open>
  The release loop of the worker:
  \<^verbatim>\<open>for(i = 0, j = 0; i < kernel->cu; j++) if((kernel->slot_id & (1 << j)) > 0)
  { slots_in_use[j] = 0; i++; }\<close>.  The loop has no bound on \<^verbatim>\<open>j\<close>: shifting
  by 31 or more and writing beyond the array are undefined, which is \<open>None\<close>.
\<close>

function release_slots :: "int \<Rightarrow> nat \<Rightarrow> int \<Rightarrow> 32 word \<Rightarrow> int list \<Rightarrow> int list option" where
  "release_slots i j cu_k sid slots =
     (if i < cu_k then
        (if 31 \<le> j then None
         else if 0 <s (sid AND push_bit j 1) then
           (if j < NUM_SLOTS then release_slots (i + 1) (j + 1) cu_k sid (slots[j := 0])
            else None)
         else release_slots i (j + 1) cu_k sid slots)
      else Some slots)"
  by pat_completeness auto
termination
  by (relation "measure (\<lambda>(i, j, cu_k, sid, slots). 31 - j)") auto

declare release_slots.simps [simp del]

text \<open>The number of bits set in a slot mask.\<close>

definition popcount :: "32 word \<Rightarrow> nat" where
  "popcount w = length (filter (bit w) [0..<32])"

section \<open>Scheduler, workers and producer as interleaved atomic steps (setup.c)\<close>

text \<open>
  The threads of the runtime communicate through global variables, each accessed inside
  a critical section of the mutex that guards it.  A step of the model is one such
  critical section (or a piece of thread-local code between two of them), so that a run
  is a list of steps taken by the scheduler, the workers, the producer and the monitor
  in any order.  A blocked \<^verbatim>\<open>pthread_cond_wait\<close> is a step that changes nothing;
  a call of \<^verbatim>\<open>exit(1)\<close> or an undefined operation is \<open>None\<close>.
\<close>

datatype operating_mode_enum = EXECUTION | TRAIN

datatype sched_pc =
    Wait_service
  | Get_dup
  | Scan_queue
  | Set_executable
  | Mark_duplicated
  | Reserve_slots
  | Select_slots
  | Dispatch
  | Serve
  | Workload_done

datatype worker_pc = Executing | Slots_released | Dup_released | Finished

datatype producer_pc = Admit | Notify

record system =
  duplicated_kernel_variable :: "int \<Rightarrow> int"
  kernels_to_serve_variable :: int
  kernels_are_executable_variable :: int
  free_slots_variable :: int
  slots_in_use :: "int list"
  kernel_execution_queue :: queue
  kernel_output_queue :: queue
  operating_mode :: operating_mode_enum
  sched :: sched_pc
  kernels_count :: int
  free_slots_tmp :: int
  duplicated_kernels_tmp :: "int \<Rightarrow> int"
  kernel_tmp :: kernel_data
  workers :: "(worker_pc \<times> kernel_data) list"
  kernel_generation_queue :: queue
  producer :: producer_pc
  admitted :: int
  producer_aux :: kernel_data

text \<open>
  The initial values of the globals of setup.c; the generation queue is the one the
  filling loop built, \<open>k0\<close> is the uninitialised content of the scheduler's local
  \<^verbatim>\<open>kernel_tmp\<close> and \<open>a0\<close> the content of the local \<^verbatim>\<open>aux_kernel_data\<close>
  of \<^verbatim>\<open>main\<close>.  One workload is modelled.
\<close>

definition init_system :: "queue \<Rightarrow> kernel_data \<Rightarrow> kernel_data \<Rightarrow> system" where
  "init_system gq k0 a0 =
     \<lparr>duplicated_kernel_variable = (\<lambda>l. 0),
      kernels_to_serve_variable = 0,
      kernels_are_executable_variable = 1,
      free_slots_variable = int NUM_SLOTS,
      slots_in_use = replicate NUM_SLOTS 0,
      kernel_execution_queue = init_queue,
      kernel_output_queue = init_queue,
      operating_mode = EXECUTION,
      sched = Wait_service,
      kernels_count = 0,
      free_slots_tmp = 0,
      duplicated_kernels_tmp = (\<lambda>l. 0),
      kernel_tmp = k0,
      workers = [],
      kernel_generation_queue = gq,
      producer = Admit,
      admitted = 0,
      producer_aux = a0\<rparr>"

text \<open>
  The condition of the scheduler's wait loop:
  \<^verbatim>\<open>kernels_to_serve_variable == 0 || kernels_are_executable_variable == 0 ||
  free_slots_variable == 0 || operating_mode == TRAIN\<close>.
\<close>

definition must_wait :: "system \<Rightarrow> bool" where
  "must_wait s =
     (kernels_to_serve_variable s = 0 \<or> kernels_are_executable_variable s = 0
      \<or> free_slots_variable s = 0 \<or> operating_mode s = TRAIN)"

text \<open>
  One step of \<^verbatim>\<open>queue_manager_thread\<close>, by program point.  \<open>malloc_ok\<close> is the
  outcome of the allocation inside \<^verbatim>\<open>enqueue_and_modify\<close>, \<open>nk\<close> is
  \<^verbatim>\<open>NUM_KERNELS\<close>.
\<close>

definition sched_step :: "int \<Rightarrow> bool \<Rightarrow> system \<Rightarrow> system option" where
  "sched_step nk malloc_ok s =
     (case sched s of
        Wait_service \<Rightarrow>
          if \<not> kernels_count s < nk
          then Some (s\<lparr>kernel_execution_queue := clean_queue (kernel_execution_queue s),
                        sched := Workload_done\<rparr>)
          else if must_wait s then Some s
          else Some (s\<lparr>free_slots_tmp := free_slots_variable s,
                       kernels_are_executable_variable := 0,
                       sched := Get_dup\<rparr>)
      | Get_dup \<Rightarrow>
          Some (s\<lparr>duplicated_kernels_tmp := duplicated_kernel_variable s, sched := Scan_queue\<rparr>)
      | Scan_queue \<Rightarrow>
          (case dequeue_first_executable_kernel (kernel_execution_queue s) (free_slots_tmp s)
                  (duplicated_kernels_tmp s) (kernel_tmp s) of
             (r, q1, d1) \<Rightarrow>
               if r < 0 then Some (s\<lparr>kernel_execution_queue := q1, kernel_tmp := d1,
                                      sched := Wait_service\<rparr>)
               else Some (s\<lparr>kernel_execution_queue := q1, kernel_tmp := d1,
                             sched := Set_executable\<rparr>))
      | Set_executable \<Rightarrow>
          Some (s\<lparr>kernels_are_executable_variable := 1, sched := Mark_duplicated\<rparr>)
      | Mark_duplicated \<Rightarrow>
          Some (s\<lparr>duplicated_kernel_variable :=
                     (duplicated_kernel_variable s)
                       (kernel_label (kernel_tmp s) :=
                          duplicated_kernel_variable s (kernel_label (kernel_tmp s)) + 1),
                   kernel_tmp := (kernel_tmp s)\<lparr>temp_id := kernels_count s\<rparr>,
                   sched := Reserve_slots\<rparr>)
      | Reserve_slots \<Rightarrow>
          Some (s\<lparr>free_slots_variable := free_slots_variable s - cu (kernel_tmp s),
                   sched := Select_slots\<rparr>)
      | Select_slots \<Rightarrow>
          (case select_slots 0 0 (cu (kernel_tmp s)) (slots_in_use s) (slot_id (kernel_tmp s)) of
             (slots1, sid1) \<Rightarrow>
               Some (s\<lparr>slots_in_use := slots1,
                        kernel_tmp := (kernel_tmp s)\<lparr>slot_id := sid1\<rparr>,
                        sched := Dispatch\<rparr>))
      | Dispatch \<Rightarrow>
          (case enqueue_and_modify malloc_ok (kernel_output_queue s) (kernel_tmp s) of
             (None, q1) \<Rightarrow> None
           | (Some kernel_tmp_ptr, q1) \<Rightarrow>
               Some (s\<lparr>kernel_output_queue := q1,
                        workers := workers s @ [(Executing, kernel_tmp s)],
                        sched := Serve\<rparr>))
      | Serve \<Rightarrow>
          Some (s\<lparr>kernels_to_serve_variable := kernels_to_serve_variable s - 1,
                   kernels_count := kernels_count s + 1,
                   sched := Wait_service\<rparr>)
      | Workload_done \<Rightarrow> Some s)"

text \<open>
  The completion code of \<^verbatim>\<open>execution_thread\<close>, run by worker \<open>n\<close> once its
  kernel has returned: three critical sections in this order.  The worker reads
  \<^verbatim>\<open>cu\<close>, \<^verbatim>\<open>slot_id\<close> and \<^verbatim>\<open>kernel_label\<close> through its pointer into the
  output queue; nothing writes these fields after the dispatch, so the worker carries
  the record it was given.
\<close>

definition worker_step :: "nat \<Rightarrow> system \<Rightarrow> system option" where
  "worker_step n s =
     (if length (workers s) \<le> n then Some s
      else case workers s ! n of
        (Executing, k) \<Rightarrow>
          (case release_slots 0 0 (cu k) (slot_id k) (slots_in_use s) of
             None \<Rightarrow> None
           | Some slots1 \<Rightarrow>
               Some (s\<lparr>slots_in_use := slots1,
                        workers := (workers s)[n := (Slots_released, k)]\<rparr>))
      | (Slots_released, k) \<Rightarrow>
          Some (s\<lparr>duplicated_kernel_variable :=
                     (duplicated_kernel_variable s)
                       (kernel_label k := duplicated_kernel_variable s (kernel_label k) - 1),
                   workers := (workers s)[n := (Dup_released, k)]\<rparr>)
      | (Dup_released, k) \<Rightarrow>
          Some (s\<lparr>free_slots_variable := free_slots_variable s + cu k,
                   kernels_are_executable_variable := 1,
                   workers := (workers s)[n := (Finished, k)]\<rparr>)
      | (Finished, k) \<Rightarrow> Some s)"

text \<open>
  The admission loop of \<^verbatim>\<open>main\<close>: the next record leaves the generation queue
  and is appended to the execution queue; then, under the service lock,
  \<^verbatim>\<open>kernels_to_serve_variable++\<close> and \<^verbatim>\<open>kernels_are_executable_variable = 1\<close>.
  \<open>nk\<close> is \<^verbatim>\<open>NUM_KERNELS\<close>.  No field of the record is inspected.
\<close>

definition producer_step :: "int \<Rightarrow> bool \<Rightarrow> system \<Rightarrow> system option" where
  "producer_step nk malloc_ok s =
     (case producer s of
        Admit \<Rightarrow>
          if \<not> admitted s < nk then Some s
          else
            (case dequeue (kernel_generation_queue s) (producer_aux s) of
               (r, gq1, d) \<Rightarrow>
                 if r < 0 then None
                 else
                   (case enqueue malloc_ok (kernel_execution_queue s) d of
                      (ret, q1) \<Rightarrow>
                        if ret \<noteq> 0 then None
                        else Some (s\<lparr>kernel_generation_queue := gq1,
                                      kernel_execution_queue := q1,
                                      producer_aux := d,
                                      producer := Notify\<rparr>)))
      | Notify \<Rightarrow>
          Some (s\<lparr>kernels_to_serve_variable := kernels_to_serve_variable s + 1,
                   kernels_are_executable_variable := 1,
                   admitted := admitted s + 1,
                   producer := Admit\<rparr>))"

text \<open>The monitoring thread switches the operating mode around a training phase.\<close>

definition monitor_step :: "operating_mode_enum \<Rightarrow> system \<Rightarrow> system option" where
  "monitor_step m s = Some (s\<lparr>operating_mode := m\<rparr>)"

datatype action = Sched bool | Work nat | Prod bool | Mon operating_mode_enum

fun exec :: "int \<Rightarrow> action \<Rightarrow> system \<Rightarrow> system option" where
  "exec nk (Sched malloc_ok) s = sched_step nk malloc_ok s"
| "exec nk (Work n) s = worker_step n s"
| "exec nk (Prod malloc_ok) s = producer_step nk malloc_ok s"
| "exec nk (Mon m) s = monitor_step m s"

fun run :: "int \<Rightarrow> action list \<Rightarrow> system \<Rightarrow> system option" where
  "run nk [] s = Some s"
| "run nk (a # as) s = (case exec nk a s of None \<Rightarrow> None | Some s1 \<Rightarrow> run nk as s1)"

section \<open>The per-slot online queues (queue\_online.c)\<close>

text \<open>
  A node of an online queue holds a pointer to a kernel record of the output queue.
  Pointers are addresses (natural numbers); the records they designate are read through
  a store \<open>nat \<Rightarrow> kernel_data\<close>.
\<close>

record queue_online =
  nodes_online :: "nat list"
  size_online :: int

definition init_queue_online :: queue_online where
  "init_queue_online = \<lparr>nodes_online = [], size_online = 0\<rparr>"

definition enqueue_online :: "bool \<Rightarrow> queue_online \<Rightarrow> nat \<Rightarrow> int \<times> queue_online" where
  "enqueue_online malloc_ok q d =
     (if \<not> malloc_ok then (-1, q)
      else (0, q\<lparr>nodes_online := nodes_online q @ [d], size_online := size_online q + 1\<rparr>))"

definition dequeue_online :: "queue_online \<Rightarrow> nat \<Rightarrow> int \<times> queue_online \<times> nat" where
  "dequeue_online q d =
     (case nodes_online q of
        [] \<Rightarrow> (-1, q, d)
      | tmp # rest \<Rightarrow> (0, q\<lparr>nodes_online := rest, size_online := size_online q - 1\<rparr>, tmp))"

definition get_size_queue_online :: "queue_online \<Rightarrow> int" where
  "get_size_queue_online q = size_online q"

section \<open>Attribution of kernels to a monitoring window (online\_processing, setup.c)\<close>

text \<open>
  \<^verbatim>\<open>online_processing\<close> copies a sequence of values into the online buffer with
  \<^verbatim>\<open>memcpy\<close>, at the offset held in a byte counter.  The buffer is a list of the
  values copied so far, together with that counter.  A float is copied as its 32 bits.
\<close>

datatype online_item =
    Float_item "32 word"
  | Window_item monitor_data
  | Int_item int
  | Kernel_item online_data

text \<open>
  The \<^verbatim>\<open>sizeof\<close> of each value, with the 8-byte \<^verbatim>\<open>long\<close> fixed above:
  \<^verbatim>\<open>float\<close> and \<^verbatim>\<open>int\<close> take 4 bytes, \<^verbatim>\<open>monitor_data\<close> (three
  \<^verbatim>\<open>struct timespec\<close>) 48, \<^verbatim>\<open>online_data\<close> (the label, 4 bytes of padding, two
  \<^verbatim>\<open>struct timespec\<close>) 40.
\<close>

fun item_size :: "online_item \<Rightarrow> int" where
  "item_size (Float_item x) = 4"
| "item_size (Window_item w) = 48"
| "item_size (Int_item n) = 4"
| "item_size (Kernel_item k) = 40"

text \<open>
  \<^verbatim>\<open>memcpy(&(ptr[num_bytes]), &x, sizeof(x)); num_bytes += sizeof(x);\<close>  The buffer
  has \<^verbatim>\<open>ONLINE_FILE_SIZE\<close> bytes (the block \<^verbatim>\<open>malloc(ONLINE_FILE_SIZE)\<close> returns
  in the socket build, the window's segment of the shared memory in the RAM build) and the
  code tests no bound: a copy that ends beyond the buffer is undefined (\<open>None\<close>).
\<close>

definition memcpy_online :: "online_item \<Rightarrow> online_item list \<times> int
    \<Rightarrow> (online_item list \<times> int) option" where
  "memcpy_online x out =
     (case out of
        (buf, num_bytes) \<Rightarrow>
          if ONLINE_FILE_SIZE < num_bytes + item_size x then None
          else Some (buf @ [x], num_bytes + item_size x))"

text \<open>Consecutive copies.\<close>

primrec memcpy_all :: "online_item list \<Rightarrow> online_item list \<times> int
    \<Rightarrow> (online_item list \<times> int) option" where
  "memcpy_all [] out = Some out"
| "memcpy_all (x # xs) out =
     (case memcpy_online x out of None \<Rightarrow> None | Some out1 \<Rightarrow> memcpy_all xs out1)"

text \<open>
  The inner loop of \<^verbatim>\<open>online_processing\<close> for one slot:
  \<^verbatim>\<open>for(cont = 0; cont < num_kernels_in_slot; cont++)\<close>.  Each iteration dequeues a
  pointer, reads \<^verbatim>\<open>t0\<close> and \<^verbatim>\<open>tf\<close> through it, decides whether to write (the
  mark 1, then the \<^verbatim>\<open>online_data\<close>), then decides whether to keep.  \<open>heap\<close> is the
  content of the kernel records while the window is processed, \<open>mallocs cont\<close> the
  outcome of the allocation made when iteration \<open>cont\<close> re-enqueues.  The counters
  \<^verbatim>\<open>num_kernels_written\<close> and \<^verbatim>\<open>kernels_to_keep\<close> only feed debug messages and
  are left out.
\<close>

function slot_loop :: "(nat \<Rightarrow> kernel_data) \<Rightarrow> monitor_data \<Rightarrow> (nat \<Rightarrow> bool) \<Rightarrow> int \<Rightarrow> int
    \<Rightarrow> queue_online \<times> nat \<times> online_item list \<times> int
    \<Rightarrow> (queue_online \<times> nat \<times> online_item list \<times> int) option" where
  "slot_loop heap monitor_window mallocs num_kernels_in_slot cont (q, kernel_tmp_ptr, out) =
     (if cont < num_kernels_in_slot then
        (case dequeue_online q kernel_tmp_ptr of
           (r, q1, kt) \<Rightarrow>
             if r < 0 then None
             else
               (let t0 = measured_arrival_time (heap kt);
                    tf = measured_finish_time (heap kt);
                    m0 = measured_starting_time monitor_window;
                    mf = mon_measured_finish_time monitor_window
                in case (if greater_than_timespec tf m0 \<and> less_than_timespec t0 mf
                         then memcpy_all
                                [Int_item 1,
                                 Kernel_item \<lparr>od_kernel_label = kernel_label (heap kt),
                                              arrival_time = t0, finish_time = tf\<rparr>] out
                         else Some out) of
                     None \<Rightarrow> None
                   | Some out1 \<Rightarrow>
                       if greater_than_timespec tf mf \<or> equal_to_timespec t0 tf then
                         (case enqueue_online (mallocs (nat cont)) q1 kt of
                            (ret, q2) \<Rightarrow>
                              if ret \<noteq> 0 then None
                              else slot_loop heap monitor_window mallocs num_kernels_in_slot
                                     (cont + 1) (q2, kt, out1))
                       else slot_loop heap monitor_window mallocs num_kernels_in_slot
                              (cont + 1) (q1, kt, out1)))
      else Some (q, kernel_tmp_ptr, out))"
  by pat_completeness auto
termination
  by (relation "measure (\<lambda>(heap, mw, mallocs, num, cont, st). nat (num - cont))") auto

declare slot_loop.simps [simp del]

text \<open>
  The outer loop over the slots: the size of the slot's queue is read, the inner loop
  runs that many times, and the mark 0 closes the slot.
\<close>

function slots_loop :: "(nat \<Rightarrow> kernel_data) \<Rightarrow> monitor_data \<Rightarrow> (nat \<Rightarrow> nat \<Rightarrow> bool) \<Rightarrow> nat
    \<Rightarrow> queue_online list \<times> nat \<times> online_item list \<times> int
    \<Rightarrow> (queue_online list \<times> nat \<times> online_item list \<times> int) option" where
  "slots_loop heap monitor_window mallocs i (online_queue, kernel_tmp_ptr, out) =
     (if i < NUM_SLOTS then
        (case slot_loop heap monitor_window (mallocs i)
                (get_size_queue_online (online_queue ! i)) 0
                (online_queue ! i, kernel_tmp_ptr, out) of
           None \<Rightarrow> None
         | Some (q1, kt, out1) \<Rightarrow>
             (case memcpy_online (Int_item 0) out1 of
                None \<Rightarrow> None
              | Some out2 \<Rightarrow>
                  slots_loop heap monitor_window mallocs (i + 1) (online_queue[i := q1], kt, out2)))
      else Some (online_queue, kernel_tmp_ptr, out))"
  by pat_completeness auto
termination
  by (relation "measure (\<lambda>(heap, mw, mallocs, i, st). NUM_SLOTS - i)") auto

declare slots_loop.simps [simp del]

text \<open>
  \<^verbatim>\<open>online_processing\<close> in the two builds that write to memory.  \<open>traces_ram\<close>
  tells the build: \<^verbatim>\<open>TRACES_SOCKET\<close> (the default of debug.h) when it is false,
  \<^verbatim>\<open>TRACES_RAM\<close> when it is true; the file build (\<^verbatim>\<open>TRACES_ROM\<close>) is not
  modelled.  \<open>online_ptr_ok\<close> says that the buffer exists: in the socket build a null
  result of \<^verbatim>\<open>malloc\<close> is only reported and the first \<^verbatim>\<open>memcpy\<close> then writes
  through the null pointer.  The header is the CPU usage when \<^verbatim>\<open>CPU_USAGE\<close> is set,
  the window and the number of slots; then come the slots.

  The result is the online queues as left by the call, the values in the buffer and the
  byte counter.  The socket build sends that many bytes.  The RAM build stores the counter
  in the last \<^verbatim>\<open>int\<close> of the buffer, \<^verbatim>\<open>((int *)online_ptr)[ONLINE_FILE_SIZE / 4 - 1]\<close>,
  that is at byte \<^verbatim>\<open>ONLINE_FILE_SIZE - 4\<close>.  Every value copied takes a multiple of 4
  bytes and the last one is the closing mark of the last slot, so the counter overwrites
  a copied value only when the buffer is full to its last byte, and that value is this
  mark.
\<close>

definition online_processing :: "bool \<Rightarrow> bool \<Rightarrow> bool \<Rightarrow> 32 word \<Rightarrow> 32 word \<Rightarrow> 32 word
    \<Rightarrow> monitor_data \<Rightarrow> (nat \<Rightarrow> kernel_data) \<Rightarrow> (nat \<Rightarrow> nat \<Rightarrow> bool) \<Rightarrow> nat \<Rightarrow> queue_online list
    \<Rightarrow> (queue_online list \<times> online_item list \<times> int) option" where
  "online_processing traces_ram online_ptr_ok cpu_usage user_cpu kernel_cpu idle_cpu
       monitor_window heap mallocs kernel_tmp_ptr online_queue =
     (if \<not> online_ptr_ok then None
      else
        case memcpy_all
               ((if cpu_usage
                 then [Float_item user_cpu, Float_item kernel_cpu, Float_item idle_cpu]
                 else [])
                @ [Window_item monitor_window, Int_item (int NUM_SLOTS)]) ([], 0) of
          None \<Rightarrow> None
        | Some header \<Rightarrow>
            (case slots_loop heap monitor_window mallocs 0 (online_queue, kernel_tmp_ptr, header) of
               None \<Rightarrow> None
             | Some (queues1, kt, buf, num_bytes) \<Rightarrow>
                 Some (queues1,
                       if traces_ram \<and> ONLINE_FILE_SIZE - 4 < num_bytes then butlast buf else buf,
                       num_bytes)))"

section \<open>The ring of buffers of the execution modes (execution\_modes\_buffers.c)\<close>

text \<open>
  Pointers into the three memory-mapped regions are addresses (integers, 0 for
  \<^verbatim>\<open>NULL\<close>).  \<^verbatim>\<open>total_iterations\<close> and \<^verbatim>\<open>current_iteration\<close> are
  \<^verbatim>\<open>int\<close>, and so are the products of a buffer size by one of them, which the code
  computes before it adds them to a pointer or hands them to \<^verbatim>\<open>_create_buffer_file\<close>:
  they are 32-bit words, a product that does not fit wraps around (as the compiled code
  does; in C the overflow is undefined), and the offset added to a base pointer is the
  signed value of the product.
\<close>

text \<open>The names of the three shared-memory files.\<close>

definition POWER_FILE_NAME :: string where
  "POWER_FILE_NAME = ''power_file''"

definition TRACES_FILE_NAME :: string where
  "TRACES_FILE_NAME = ''traces_file''"

definition ONLINE_FILE_NAME :: string where
  "ONLINE_FILE_NAME = ''online_file''"

record execution_modes_buffers =
  power_base_ptr :: int
  power_current_ptr :: int
  traces_base_ptr :: int
  traces_current_ptr :: int
  online_base_ptr :: int
  online_current_ptr :: int
  total_iterations :: "32 word"
  current_iteration :: "32 word"

text \<open>
  \<^verbatim>\<open>execution_modes_buffers_init\<close>.  \<open>create_buffer_file\<close> stands for
  \<^verbatim>\<open>_create_buffer_file\<close>: it gives the address returned for a file name and a
  size, 0 when the creation fails.  \<open>None\<close> is \<^verbatim>\<open>exit(1)\<close> on a null buffer.
  The result is the three pointers handed back to the caller and the buffers.
\<close>

definition execution_modes_buffers_init :: "(string \<Rightarrow> 32 word \<Rightarrow> int) \<Rightarrow> 32 word
    \<Rightarrow> ((int \<times> int \<times> int) \<times> execution_modes_buffers) option" where
  "execution_modes_buffers_init create_buffer_file measurements_per_training =
     (let power_file = create_buffer_file POWER_FILE_NAME
                         (word_of_int POWER_FILE_SIZE * measurements_per_training);
          traces_file = create_buffer_file TRACES_FILE_NAME
                          (word_of_int TRACES_FILE_SIZE * measurements_per_training);
          online_file = create_buffer_file ONLINE_FILE_NAME
                          (word_of_int ONLINE_FILE_SIZE * measurements_per_training)
      in if power_file = 0 then None
         else if traces_file = 0 then None
         else if online_file = 0 then None
         else Some ((power_file, traces_file, online_file),
                    \<lparr>power_base_ptr = power_file, power_current_ptr = power_file,
                     traces_base_ptr = traces_file, traces_current_ptr = traces_file,
                     online_base_ptr = online_file, online_current_ptr = online_file,
                     total_iterations = measurements_per_training,
                     current_iteration = 0\<rparr>))"

text \<open>
  \<^verbatim>\<open>execution_modes_buffers_toggle\<close>.  The C remainder truncates towards zero
  (\<open>smod\<close> on the signed values); a remainder by zero, and the remainder of
  \<^verbatim>\<open>INT_MIN\<close> by -1, are undefined (\<open>None\<close>).
\<close>

definition execution_modes_buffers_toggle :: "execution_modes_buffers
    \<Rightarrow> ((int \<times> int \<times> int) \<times> execution_modes_buffers) option" where
  "execution_modes_buffers_toggle buffers =
     (if total_iterations buffers = 0 then None
      else if current_iteration buffers + 1 = - (2 ^ 31) \<and> total_iterations buffers = - 1 then None
      else
        (let cur = (word_of_int (sint (current_iteration buffers + 1)
                                   smod sint (total_iterations buffers)) :: 32 word);
             b1 = buffers\<lparr>current_iteration := cur,
                          power_current_ptr :=
                            power_base_ptr buffers + sint (word_of_int POWER_FILE_SIZE * cur),
                          traces_current_ptr :=
                            traces_base_ptr buffers + sint (word_of_int TRACES_FILE_SIZE * cur),
                          online_current_ptr :=
                            online_base_ptr buffers + sint (word_of_int ONLINE_FILE_SIZE * cur)\<rparr>
         in Some ((power_current_ptr b1, traces_current_ptr b1, online_current_ptr b1), b1)))"

text \<open>\<open>n\<close> consecutive calls of the toggle.\<close>

fun toggles :: "nat \<Rightarrow> execution_modes_buffers
    \<Rightarrow> ((int \<times> int \<times> int) \<times> execution_modes_buffers) option" where
  "toggles 0 buffers =
     Some ((power_current_ptr buffers, traces_current_ptr buffers, online_current_ptr buffers),
           buffers)"
| "toggles (Suc n) buffers =
     (case toggles n buffers of
        None \<Rightarrow> None
      | Some (ptrs, b1) \<Rightarrow> execution_modes_buffers_toggle b1)"

section \<open>Notions used to state the properties\<close>

text \<open>
  The definitions of this section do not come from the code: they say, in the words of
  the specification, what the code is compared with.
\<close>

text \<open>The lexicographic order on \<open>(tv_sec, tv_nsec)\<close>, both read as signed numbers.\<close>

definition timespec_lex_less :: "timespec \<Rightarrow> timespec \<Rightarrow> bool" where
  "timespec_lex_less a b =
     (sint (tv_sec a) < sint (tv_sec b)
      \<or> (tv_sec a = tv_sec b \<and> sint (tv_nsec a) < sint (tv_nsec b)))"

text \<open>Write \<open>r\<close> iff \<open>tf > m0\<close> and \<open>t0 < mf\<close>.\<close>

definition window_write :: "monitor_data \<Rightarrow> kernel_data \<Rightarrow> bool" where
  "window_write mw r =
     (timespec_lex_less (measured_starting_time mw) (measured_finish_time r)
      \<and> timespec_lex_less (measured_arrival_time r) (mon_measured_finish_time mw))"

text \<open>Retain \<open>r\<close> iff \<open>tf > mf\<close> or \<open>t0 = tf\<close>.\<close>

definition window_retain :: "monitor_data \<Rightarrow> kernel_data \<Rightarrow> bool" where
  "window_retain mw r =
     (timespec_lex_less (mon_measured_finish_time mw) (measured_finish_time r)
      \<or> measured_arrival_time r = measured_finish_time r)"

text \<open>The snapshot of a record: label, arrival time, finish time.\<close>

definition snapshot :: "kernel_data \<Rightarrow> online_data" where
  "snapshot r = \<lparr>od_kernel_label = kernel_label r,
                 arrival_time = measured_arrival_time r,
                 finish_time = measured_finish_time r\<rparr>"

text \<open>
  What a slot contributes to the online buffer: for each record of its list, in list
  order, the mark 1 and the snapshot when the record is to be written, nothing otherwise.
\<close>

definition slot_items :: "(nat \<Rightarrow> kernel_data) \<Rightarrow> monitor_data \<Rightarrow> nat list \<Rightarrow> online_item list" where
  "slot_items heap mw ps =
     concat (map (\<lambda>p. if window_write mw (heap p)
                       then [Int_item 1, Kernel_item (snapshot (heap p))] else []) ps)"

text \<open>The list of a slot after the window: the records to retain, in their order.\<close>

definition retained :: "(nat \<Rightarrow> kernel_data) \<Rightarrow> monitor_data \<Rightarrow> queue_online \<Rightarrow> queue_online" where
  "retained heap mw q =
     \<lparr>nodes_online = filter (\<lambda>p. window_retain mw (heap p)) (nodes_online q),
      size_online = int (length (filter (\<lambda>p. window_retain mw (heap p)) (nodes_online q)))\<rparr>"

text \<open>
  The window as it is to appear in the online buffer: the header, then for each slot what
  the slot contributes and the closing mark 0.
\<close>

definition window_items :: "bool \<Rightarrow> 32 word \<Rightarrow> 32 word \<Rightarrow> 32 word \<Rightarrow> monitor_data
    \<Rightarrow> (nat \<Rightarrow> kernel_data) \<Rightarrow> queue_online list \<Rightarrow> online_item list" where
  "window_items cpu_usage user_cpu kernel_cpu idle_cpu mw heap online_queue =
     ((if cpu_usage then [Float_item user_cpu, Float_item kernel_cpu, Float_item idle_cpu]
       else []) @ [Window_item mw, Int_item (int NUM_SLOTS)])
     @ concat (map (\<lambda>q. slot_items heap mw (nodes_online q) @ [Int_item 0]) online_queue)"

text \<open>The records of all the slots that are to be written.\<close>

definition written :: "monitor_data \<Rightarrow> (nat \<Rightarrow> kernel_data) \<Rightarrow> queue_online list \<Rightarrow> nat list" where
  "written mw heap online_queue =
     filter (\<lambda>p. window_write mw (heap p)) (concat (map nodes_online online_queue))"

text \<open>The \<open>n\<close> lowest-indexed free slots, in increasing index order.\<close>

definition lowest_free :: "nat \<Rightarrow> int list \<Rightarrow> nat list" where
  "lowest_free n slots = take n (filter (\<lambda>i. slots ! i = 0) [0..<NUM_SLOTS])"

subsection \<open>Example inputs\<close>

definition example_window :: monitor_data where
  "example_window =
     \<lparr>mon_initial_time = zero_timespec,
      measured_starting_time = \<lparr>tv_sec = 5, tv_nsec = 0\<rparr>,
      mon_measured_finish_time = \<lparr>tv_sec = 5, tv_nsec = 500000000\<rparr>\<rparr>"

definition example_kernel :: "int \<Rightarrow> timespec \<Rightarrow> timespec \<Rightarrow> kernel_data" where
  "example_kernel l t0 tf =
     \<lparr>initial_time = zero_timespec, temp_id = 0, kernel_label = l, num_executions = 1,
      intended_arrival_time_ms = 0, commanded_arrival_time = zero_timespec,
      measured_arrival_time = t0, measured_finish_time = tf,
      measured_pre_execution_time = zero_timespec,
      measured_post_execution_time = zero_timespec, cu = 1, slot_id = 1\<rparr>"

text \<open>
  Three records on slot 0: one that started before the window and finished inside it, one
  that has not started, one that started inside the window and is still running.
\<close>

definition example_heap :: "nat \<Rightarrow> kernel_data" where
  "example_heap p =
     (if p = 0 then example_kernel 3 \<lparr>tv_sec = 4, tv_nsec = 990000000\<rparr>
                                     \<lparr>tv_sec = 5, tv_nsec = 10000000\<rparr>
      else if p = 1 then example_kernel 5 \<lparr>tv_sec = LONG_MAX, tv_nsec = LONG_MAX\<rparr>
                                          \<lparr>tv_sec = LONG_MAX, tv_nsec = LONG_MAX\<rparr>
      else example_kernel 6 \<lparr>tv_sec = 5, tv_nsec = 100\<rparr>
                            \<lparr>tv_sec = LONG_MAX, tv_nsec = LONG_MAX\<rparr>)"

definition example_online_queue :: "queue_online list" where
  "example_online_queue =
     \<lparr>nodes_online = [0, 1, 2], size_online = 3\<rparr> # replicate 7 init_queue_online"

definition all_mallocs_succeed :: "nat \<Rightarrow> nat \<Rightarrow> bool" where
  "all_mallocs_succeed i c = True"

text \<open>A creation of the shared-memory files that succeeds, at three fixed addresses.\<close>

definition example_create_buffer_file :: "string \<Rightarrow> 32 word \<Rightarrow> int" where
  "example_create_buffer_file filename sz =
     (if filename = POWER_FILE_NAME then 4294967296
      else if filename = TRACES_FILE_NAME then 8589934592
      else 12884901888)"

text \<open>
  A workload whose first record has label 11 (the labels are 0 to 10) and 0 executions.
\<close>

definition example_bad_workload :: workload where
  "example_bad_workload =
     \<lparr>kernel_label_buffer = (\<lambda>i. 11),
      num_executions_buffer = (\<lambda>i. 0),
      inter_arrival_buffer = (\<lambda>i. 1),
      rand_values = (\<lambda>i. 0),
      generation_malloc = (\<lambda>i. True)\<rparr>"

subsection \<open>Live records and slot accounting\<close>

text \<open>
  A record is live from the moment the scheduler has selected its slots until the worker
  that runs it has returned them to \<^verbatim>\<open>free_slots_variable\<close>: the record the
  scheduler is about to hand over, and the records of the workers that have not finished
  their completion code.
\<close>

definition live :: "system \<Rightarrow> kernel_data list" where
  "live s =
     map snd (filter (\<lambda>w. fst w \<noteq> Finished) (workers s))
     @ (if sched s = Dispatch then [kernel_tmp s] else [])"

definition live_mask_bits :: "system \<Rightarrow> int" where
  "live_mask_bits s = (\<Sum>k\<leftarrow>live s. int (popcount (slot_id k)))"

text \<open>The sum of the widths of the workers whose program point satisfies \<open>P\<close>.\<close>

definition cu_where :: "(worker_pc \<Rightarrow> bool) \<Rightarrow> (worker_pc \<times> kernel_data) list \<Rightarrow> int" where
  "cu_where P ws = (\<Sum>w\<leftarrow>ws. if P (fst w) then cu (snd w) else 0)"

text \<open>The number of executing workers whose mask has bit \<open>i\<close>.\<close>

definition holds_at :: "nat \<Rightarrow> (worker_pc \<times> kernel_data) list \<Rightarrow> int" where
  "holds_at i ws = (\<Sum>w\<leftarrow>ws. if fst w = Executing \<and> bit (slot_id (snd w)) i then 1 else 0)"

text \<open>
  The accounting below is stated on the components of the state it depends on: the slot
  table, the workers, the scheduler's program point and its record, the two counters and
  the contents of the two queues.
\<close>

definition held_cu :: "(worker_pc \<times> kernel_data) list \<Rightarrow> sched_pc \<Rightarrow> kernel_data \<Rightarrow> int" where
  "held_cu ws pc kt =
     cu_where (\<lambda>p. p = Executing) ws + (if pc = Dispatch then cu kt else 0)"

definition returning_cu :: "(worker_pc \<times> kernel_data) list \<Rightarrow> int" where
  "returning_cu ws = cu_where (\<lambda>p. p = Slots_released \<or> p = Dup_released) ws"

definition reserved_cu :: "sched_pc \<Rightarrow> kernel_data \<Rightarrow> int" where
  "reserved_cu pc kt = (if pc = Select_slots then cu kt else 0)"

definition occupancy :: "(worker_pc \<times> kernel_data) list \<Rightarrow> sched_pc \<Rightarrow> kernel_data \<Rightarrow> nat \<Rightarrow> int" where
  "occupancy ws pc kt i =
     holds_at i ws + (if pc = Dispatch \<and> bit (slot_id kt) i then 1 else 0)"

text \<open>A record as the producer builds it, and a record whose slots have been selected.\<close>

definition fresh :: "kernel_data \<Rightarrow> bool" where
  "fresh k = (1 \<le> cu k \<and> slot_id k = 0)"

definition well_placed :: "kernel_data \<Rightarrow> bool" where
  "well_placed k =
     (1 \<le> cu k \<and> popcount (slot_id k) = nat (cu k) \<and> (\<forall>i. bit (slot_id k) i \<longrightarrow> i < NUM_SLOTS))"

definition inv_table :: "int list \<Rightarrow> (worker_pc \<times> kernel_data) list \<Rightarrow> sched_pc \<Rightarrow> kernel_data \<Rightarrow> bool" where
  "inv_table slots ws pc kt =
     (length slots = NUM_SLOTS
      \<and> (\<forall>i<NUM_SLOTS. slots ! i = occupancy ws pc kt i \<and> occupancy ws pc kt i \<le> 1)
      \<and> int (length (filter (\<lambda>x. x = 0) slots)) + held_cu ws pc kt = int NUM_SLOTS)"

definition holds_fresh :: "sched_pc \<Rightarrow> bool" where
  "holds_fresh pc =
     (pc = Set_executable \<or> pc = Mark_duplicated \<or> pc = Reserve_slots \<or> pc = Select_slots)"

definition inv_records :: "(worker_pc \<times> kernel_data) list \<Rightarrow> sched_pc \<Rightarrow> kernel_data
    \<Rightarrow> kernel_data list \<Rightarrow> kernel_data list \<Rightarrow> bool" where
  "inv_records ws pc kt exec_nodes gen_nodes =
     ((\<forall>w\<in>set ws. fst w \<noteq> Finished \<longrightarrow> well_placed (snd w))
      \<and> (pc = Dispatch \<longrightarrow> well_placed kt)
      \<and> (holds_fresh pc \<longrightarrow> fresh kt)
      \<and> (\<forall>k\<in>set exec_nodes. fresh k)
      \<and> (\<forall>k\<in>set gen_nodes. fresh k))"

definition inv_account :: "int \<Rightarrow> int \<Rightarrow> (worker_pc \<times> kernel_data) list \<Rightarrow> sched_pc \<Rightarrow> kernel_data \<Rightarrow> bool" where
  "inv_account free free_tmp ws pc kt =
     (free + held_cu ws pc kt + returning_cu ws + reserved_cu pc kt = int NUM_SLOTS
      \<and> 0 \<le> free
      \<and> (pc = Get_dup \<or> pc = Scan_queue \<longrightarrow> free_tmp \<le> free)
      \<and> (pc = Set_executable \<or> pc = Mark_duplicated \<or> pc = Reserve_slots \<longrightarrow> cu kt \<le> free))"

definition slot_inv :: "system \<Rightarrow> bool" where
  "slot_inv s =
     (inv_table (slots_in_use s) (workers s) (sched s) (kernel_tmp s)
      \<and> inv_records (workers s) (sched s) (kernel_tmp s)
           (nodes (kernel_execution_queue s)) (nodes (kernel_generation_queue s))
      \<and> inv_account (free_slots_variable s) (free_slots_tmp s) (workers s) (sched s)
           (kernel_tmp s))"

text \<open>A workload of kernels with label 3, one execution each and width \<open>tmp_cu[0] = 1\<close>.\<close>

definition example_workload :: workload where
  "example_workload =
     \<lparr>kernel_label_buffer = (\<lambda>i. 3),
      num_executions_buffer = (\<lambda>i. 1),
      inter_arrival_buffer = (\<lambda>i. 1),
      rand_values = (\<lambda>i. 0),
      generation_malloc = (\<lambda>i. True)\<rparr>"

definition example_first_kernel :: kernel_data where
  "example_first_kernel = aux_kernel_data example_workload zero_timespec zero_timespec 0"

text \<open>
  The producer admits the first record and the scheduler takes it through the clearing
  of the flag, the two snapshots, the scan, the setting of the flag, the duplication
  mark, the reservation and the selection of its slot.
\<close>

definition example_dispatch_run :: "action list" where
  "example_dispatch_run =
     [Prod True, Prod True, Sched True, Sched True, Sched True, Sched True, Sched True,
      Sched True, Sched True]"

text \<open>
  Two records of label 3 are admitted one after the other; the first is dispatched
  completely before the second is admitted.
\<close>

definition example_two_kernels :: queue where
  "example_two_kernels = \<lparr>nodes = [example_first_kernel, example_first_kernel], size = 2\<rparr>"

definition example_first_dispatch :: "action list" where
  "example_first_dispatch =
     [Prod True, Prod True, Sched True, Sched True, Sched True, Sched True, Sched True,
      Sched True, Sched True, Sched True, Sched True, Prod True, Prod True]"

text \<open>
  A workload of two kernels with different labels: the first of width \<open>tmp_cu[0] = 1\<close>,
  the second of width \<open>tmp_cu[1] = 2\<close>.
\<close>

definition example_mixed_workload :: workload where
  "example_mixed_workload =
     \<lparr>kernel_label_buffer = (\<lambda>i. int i),
      num_executions_buffer = (\<lambda>i. 1),
      inter_arrival_buffer = (\<lambda>i. 1),
      rand_values = (\<lambda>i. i),
      generation_malloc = (\<lambda>i. True)\<rparr>"

definition example_narrow_kernel :: kernel_data where
  "example_narrow_kernel = aux_kernel_data example_mixed_workload zero_timespec zero_timespec 0"

definition example_wide_kernel :: kernel_data where
  "example_wide_kernel =
     aux_kernel_data example_mixed_workload zero_timespec
       (commanded_arrival_time example_narrow_kernel) 1"

text \<open>
  Both records are admitted; the scheduler dispatches the first and takes the second up
  to the reservation of its slots.
\<close>

definition example_second_reservation :: "action list" where
  "example_second_reservation =
     [Prod True, Prod True, Prod True, Prod True,
      Sched True, Sched True, Sched True, Sched True, Sched True, Sched True, Sched True,
      Sched True, Sched True,
      Sched True, Sched True, Sched True, Sched True, Sched True, Sched True]"

section \<open>Properties\<close>

subsection \<open>Timer functions\<close>

lemma add_timespec_total:
  "tv_sec (add_timespec a b) * NS_PER_SECOND + tv_nsec (add_timespec a b)
     = (tv_sec a + tv_sec b) * NS_PER_SECOND + tv_nsec a + tv_nsec b"
  by (simp add: add_timespec_def Let_def algebra_simps)

text \<open>
  Claim C10.  \<^verbatim>\<open>add_timespec\<close> does not return a normalised value for every
  pair of normalised arguments: the carry is taken when the nanoseconds are strictly
  greater than \<^verbatim>\<open>NS_PER_SECOND\<close>, so for two times of half a second each the
  result keeps \<open>tv_nsec = NS_PER_SECOND\<close>, which is outside \<open>[0, NS_PER_SECOND)\<close>.
\<close>

theorem add_timespec_half_seconds:
  "add_timespec \<lparr>tv_sec = 0, tv_nsec = 500000000\<rparr> \<lparr>tv_sec = 0, tv_nsec = 500000000\<rparr>
     = \<lparr>tv_sec = 0, tv_nsec = 1000000000\<rparr>
   \<and> tv_nsec (add_timespec \<lparr>tv_sec = 0, tv_nsec = 500000000\<rparr>
                              \<lparr>tv_sec = 0, tv_nsec = 500000000\<rparr>) = NS_PER_SECOND
   \<and> \<not> (tv_nsec (add_timespec \<lparr>tv_sec = 0, tv_nsec = 500000000\<rparr>
                                 \<lparr>tv_sec = 0, tv_nsec = 500000000\<rparr>) <s NS_PER_SECOND)"
  by (simp add: add_timespec_def NS_PER_SECOND_def Let_def)

subsection \<open>The kernel queue\<close>

text \<open>
  Claim C9.  On a non-empty queue \<^verbatim>\<open>dequeue_from(q, 0, d)\<close> removes the head and
  returns 0 as \<^verbatim>\<open>dequeue\<close> does, but it decrements \<^verbatim>\<open>size\<close> twice (once in
  \<^verbatim>\<open>dequeue\<close>, once at the end of \<^verbatim>\<open>dequeue_from\<close>), so the two calls do
  not leave the same queue and \<^verbatim>\<open>size\<close> is one less than the number of nodes left.
\<close>

theorem dequeue_from_head_size:
  "dequeue_from \<lparr>nodes = k # rest, size = n\<rparr> 0 d = Some (0, \<lparr>nodes = rest, size = n - 2\<rparr>, k)
   \<and> dequeue \<lparr>nodes = k # rest, size = n\<rparr> d = (0, \<lparr>nodes = rest, size = n - 1\<rparr>, k)"
  by (simp add: dequeue_from_def dequeue_def)

text \<open>
  When every entry of the duplication table is 0 or 1, the scan returns the first record
  with \<open>cu \<le> free_slots\<close> and entry 0, and keeps the others in their order.
\<close>

lemma scan_rest_extract:
  "\<forall>k\<in>set xs. dup (kernel_label k) = 0 \<or> dup (kernel_label k) = 1 \<Longrightarrow>
   scan_rest fs dup pre xs =
     (case List.extract (\<lambda>k. cu k \<le> fs \<and> dup (kernel_label k) = 0) xs of
        None \<Rightarrow> None
      | Some (ys, t, zs) \<Rightarrow> Some (pre @ ys, t, zs))"
proof (induction xs arbitrary: pre)
  case Nil
  then show ?case by (simp add: extract_Nil_code)
next
  case (Cons a xs)
  then show ?case
    by (auto simp: extract_Cons_code split: option.splits)
qed

lemma dequeue_first_executable_kernel_flags:
  assumes "\<forall>k\<in>set (nodes q). dup (kernel_label k) = 0 \<or> dup (kernel_label k) = 1"
  shows "dequeue_first_executable_kernel q fs dup d =
     (case List.extract (\<lambda>k. cu k \<le> fs \<and> dup (kernel_label k) = 0) (nodes q) of
        None \<Rightarrow> (-1, q, d)
      | Some (ys, t, zs) \<Rightarrow> (0, q\<lparr>nodes := ys @ zs, size := size q - 1\<rparr>, t))"
proof (cases "nodes q")
  case Nil
  then show ?thesis by (simp add: dequeue_first_executable_kernel_def extract_Nil_code)
next
  case (Cons a xs)
  with assms have "\<forall>k\<in>set xs. dup (kernel_label k) = 0 \<or> dup (kernel_label k) = 1" by simp
  from scan_rest_extract[OF this, of fs "[a]"] Cons show ?thesis
    by (auto simp: dequeue_first_executable_kernel_def extract_Cons_code split: option.splits)
qed

text \<open>
  Claim C1.  The head is tested with \<^verbatim>\<open>duplicated_kernels[label] == 0\<close> and the
  following records with \<^verbatim>\<open>duplicated_kernels[label] == 1\<close>.  With an entry of
  2 for label 3, free\_slots 4 and the queue \<open>[cu 8 label 0, cu 1 label 3]\<close>, the scan
  returns the second record, whose entry is not 0; the same record alone at the head of
  the queue is refused.
\<close>

theorem dequeue_first_executable_kernel_entry_two:
  "dequeue_first_executable_kernel
      \<lparr>nodes = [k\<lparr>cu := 8, kernel_label := 0\<rparr>, k\<lparr>cu := 1, kernel_label := 3\<rparr>], size = 2\<rparr>
      4 (\<lambda>l. if l = 3 then 2 else 0) d
    = (0, \<lparr>nodes = [k\<lparr>cu := 8, kernel_label := 0\<rparr>], size = 1\<rparr>, k\<lparr>cu := 1, kernel_label := 3\<rparr>)
  \<and> dequeue_first_executable_kernel
      \<lparr>nodes = [k\<lparr>cu := 1, kernel_label := 3\<rparr>], size = 1\<rparr>
      4 (\<lambda>l. if l = 3 then 2 else 0) d
    = (-1, \<lparr>nodes = [k\<lparr>cu := 1, kernel_label := 3\<rparr>], size = 1\<rparr>, d)"
  by (simp add: dequeue_first_executable_kernel_def)

subsection \<open>The ring of buffers\<close>

lemma sint_small:
  assumes "0 \<le> x" "x < 2 ^ 31"
  shows "sint (word_of_int x :: 32 word) = x"
  using assms by (simp add: signed_of_int signed_take_bit_int_eq_self)

lemma offset_exact:
  assumes "0 \<le> c" "c < M" "0 < S" "S * M < 2 ^ 31"
  shows "sint (word_of_int S * (word_of_int c :: 32 word)) = S * c"
proof -
  have "S * c \<le> S * M" using assms by (simp add: mult_left_mono)
  then have b: "S * c < 2 ^ 31" using assms(4) by linarith
  have n: "0 \<le> S * c" using assms by simp
  have "word_of_int S * (word_of_int c :: 32 word) = word_of_int (S * c)" by simp
  then show ?thesis using sint_small[OF n b] by simp
qed

lemma toggle_in_range:
  assumes "1 < M" "POWER_FILE_SIZE * M < 2 ^ 31" "total_iterations b = word_of_int M"
    "current_iteration b = word_of_int c" "0 \<le> c" "c < M"
  shows "execution_modes_buffers_toggle b =
     Some ((power_base_ptr b + POWER_FILE_SIZE * ((c + 1) mod M),
            traces_base_ptr b + TRACES_FILE_SIZE * ((c + 1) mod M),
            online_base_ptr b + ONLINE_FILE_SIZE * ((c + 1) mod M)),
           b\<lparr>current_iteration := word_of_int ((c + 1) mod M),
             power_current_ptr := power_base_ptr b + POWER_FILE_SIZE * ((c + 1) mod M),
             traces_current_ptr := traces_base_ptr b + TRACES_FILE_SIZE * ((c + 1) mod M),
             online_current_ptr := online_base_ptr b + ONLINE_FILE_SIZE * ((c + 1) mod M)\<rparr>)"
proof -
  have M31: "M < 2 ^ 31" using assms(1,2) by (simp add: POWER_FILE_SIZE_def)
  have sM: "sint (word_of_int M :: 32 word) = M" using assms(1) M31 by (intro sint_small) simp_all
  have c1: "0 \<le> c + 1" "c + 1 < 2 ^ 31" using assms(5,6) M31 by simp_all
  have sc: "sint (word_of_int c + 1 :: 32 word) = c + 1"
    using sint_small[OF c1] by simp
  have sm: "(c + 1) smod M = (c + 1) mod M"
    using assms by (simp add: signed_modulo_int_def sgn_if)
  have r: "0 \<le> (c + 1) mod M" "(c + 1) mod M < M" using assms(1) by simp_all
  have T: "TRACES_FILE_SIZE * M < 2 ^ 31" "ONLINE_FILE_SIZE * M < 2 ^ 31"
    using assms(1,2) by (simp_all add: POWER_FILE_SIZE_def TRACES_FILE_SIZE_def ONLINE_FILE_SIZE_def)
  have P: "0 < POWER_FILE_SIZE" "0 < TRACES_FILE_SIZE" "0 < ONLINE_FILE_SIZE"
    by (simp_all add: POWER_FILE_SIZE_def TRACES_FILE_SIZE_def ONLINE_FILE_SIZE_def)
  have nz: "(word_of_int M :: 32 word) \<noteq> 0"
    using sM assms(1) by auto
  have nm: "(word_of_int M :: 32 word) \<noteq> - 1"
    using sM assms(1) by auto
  show ?thesis
    unfolding execution_modes_buffers_toggle_def Let_def assms(3,4) sc sM sm
      offset_exact[OF r P(1) assms(2)] offset_exact[OF r P(2) T(1)] offset_exact[OF r P(3) T(2)]
    using nz nm by simp
qed


lemma toggles_run:
  assumes "1 < M" "POWER_FILE_SIZE * M < 2 ^ 31"
    "total_iterations b0 = word_of_int M" "current_iteration b0 = 0"
    "power_current_ptr b0 = power_base_ptr b0" "traces_current_ptr b0 = traces_base_ptr b0"
    "online_current_ptr b0 = online_base_ptr b0"
  shows "\<exists>b. toggles n b0 =
       Some ((power_base_ptr b0 + POWER_FILE_SIZE * (int n mod M),
              traces_base_ptr b0 + TRACES_FILE_SIZE * (int n mod M),
              online_base_ptr b0 + ONLINE_FILE_SIZE * (int n mod M)), b)
     \<and> current_iteration b = word_of_int (int n mod M) \<and> total_iterations b = word_of_int M
     \<and> power_base_ptr b = power_base_ptr b0 \<and> traces_base_ptr b = traces_base_ptr b0
     \<and> online_base_ptr b = online_base_ptr b0"
proof (induction n)
  case 0
  with assms show ?case by simp
next
  case (Suc n)
  then obtain b where b: "toggles n b0 =
       Some ((power_base_ptr b0 + POWER_FILE_SIZE * (int n mod M),
              traces_base_ptr b0 + TRACES_FILE_SIZE * (int n mod M),
              online_base_ptr b0 + ONLINE_FILE_SIZE * (int n mod M)), b)"
     and c: "current_iteration b = word_of_int (int n mod M)"
     and t: "total_iterations b = word_of_int M"
     and p: "power_base_ptr b = power_base_ptr b0" "traces_base_ptr b = traces_base_ptr b0"
      "online_base_ptr b = online_base_ptr b0"
    by blast
  have r: "0 \<le> int n mod M" "int n mod M < M" using assms(1) by simp_all
  have m: "(int n mod M + 1) mod M = int (Suc n) mod M"
    using mod_add_left_eq[of "int n" M 1] by (simp add: add.commute)
  show ?case
    using b toggle_in_range[OF assms(1,2) t c r] p t m by simp
qed

lemma cursor_value:
  assumes "1 < M" "POWER_FILE_SIZE * M < 2 ^ 31"
  shows "sint (word_of_int (x mod M) :: 32 word) = x mod M"
proof -
  have "M < 2 ^ 31" using assms by (simp add: POWER_FILE_SIZE_def)
  moreover have "0 \<le> x mod M" "x mod M < M" using assms(1) by simp_all
  ultimately show ?thesis by (intro sint_small) simp_all
qed

text \<open>
  Claim C8.  With \<open>M > 1\<close> segments whose total size the initialisation can compute in
  \<^verbatim>\<open>int\<close> (\<open>POWER_FILE_SIZE * M < 2^31\<close>, which \<open>M = 200\<close> of setup.c
  meets), after the initialisation and any number \<open>n\<close> of calls of
  \<^verbatim>\<open>execution_modes_buffers_toggle\<close> the cursor is \<open>n mod M\<close> and the three
  pointers returned are the base pointers plus the segment size times the cursor; one more
  call moves the cursor to the next segment modulo \<open>M\<close>, and \<open>M\<close> more calls bring
  it back to where it was (to segment 0 after the first \<open>M\<close> calls).
\<close>

theorem toggle_round_robin:
  assumes "1 < M" "POWER_FILE_SIZE * M < 2 ^ 31"
    "create_buffer_file POWER_FILE_NAME (word_of_int POWER_FILE_SIZE * word_of_int M) = power_file"
    "create_buffer_file TRACES_FILE_NAME (word_of_int TRACES_FILE_SIZE * word_of_int M) = traces_file"
    "create_buffer_file ONLINE_FILE_NAME (word_of_int ONLINE_FILE_SIZE * word_of_int M) = online_file"
    "power_file \<noteq> 0" "traces_file \<noteq> 0" "online_file \<noteq> 0"
  shows "\<exists>b0. execution_modes_buffers_init create_buffer_file (word_of_int M)
               = Some ((power_file, traces_file, online_file), b0)
     \<and> (\<exists>b. toggles n b0 =
              Some ((power_file + POWER_FILE_SIZE * (int n mod M),
                     traces_file + TRACES_FILE_SIZE * (int n mod M),
                     online_file + ONLINE_FILE_SIZE * (int n mod M)), b)
            \<and> sint (current_iteration b) = int n mod M
            \<and> (\<exists>b1. execution_modes_buffers_toggle b =
                  Some ((power_file + POWER_FILE_SIZE * ((sint (current_iteration b) + 1) mod M),
                         traces_file + TRACES_FILE_SIZE * ((sint (current_iteration b) + 1) mod M),
                         online_file + ONLINE_FILE_SIZE * ((sint (current_iteration b) + 1) mod M)), b1)
                \<and> sint (current_iteration b1) = (sint (current_iteration b) + 1) mod M))
     \<and> (\<exists>b. toggles (n + nat M) b0 =
              Some ((power_file + POWER_FILE_SIZE * (int n mod M),
                     traces_file + TRACES_FILE_SIZE * (int n mod M),
                     online_file + ONLINE_FILE_SIZE * (int n mod M)), b)
            \<and> sint (current_iteration b) = int n mod M)
     \<and> (\<exists>b. toggles (nat M) b0 = Some ((power_file, traces_file, online_file), b)
            \<and> sint (current_iteration b) = 0)"
proof -
  let ?b0 = "\<lparr>power_base_ptr = power_file, power_current_ptr = power_file,
              traces_base_ptr = traces_file, traces_current_ptr = traces_file,
              online_base_ptr = online_file, online_current_ptr = online_file,
              total_iterations = word_of_int M, current_iteration = 0\<rparr>"
  note cv = cursor_value[OF assms(1,2)]
  have i: "execution_modes_buffers_init create_buffer_file (word_of_int M)
      = Some ((power_file, traces_file, online_file), ?b0)"
    unfolding execution_modes_buffers_init_def Let_def assms(3,4,5)
    using assms(6,7,8) by simp
  have R: "\<And>m. \<exists>b. toggles m ?b0 =
       Some ((power_file + POWER_FILE_SIZE * (int m mod M),
              traces_file + TRACES_FILE_SIZE * (int m mod M),
              online_file + ONLINE_FILE_SIZE * (int m mod M)), b)
     \<and> current_iteration b = word_of_int (int m mod M) \<and> total_iterations b = word_of_int M
     \<and> power_base_ptr b = power_file \<and> traces_base_ptr b = traces_file
     \<and> online_base_ptr b = online_file"
    using toggles_run[of M ?b0] assms(1,2) by simp
  from R[of n] obtain b where b: "toggles n ?b0 =
       Some ((power_file + POWER_FILE_SIZE * (int n mod M),
              traces_file + TRACES_FILE_SIZE * (int n mod M),
              online_file + ONLINE_FILE_SIZE * (int n mod M)), b)"
     and c: "current_iteration b = word_of_int (int n mod M)"
     and t: "total_iterations b = word_of_int M"
     and p: "power_base_ptr b = power_file" "traces_base_ptr b = traces_file"
       "online_base_ptr b = online_file"
    by blast
  have sc: "sint (current_iteration b) = int n mod M" unfolding c by (rule cv)
  have r: "0 \<le> int n mod M" "int n mod M < M" using assms(1) by simp_all
  have step: "\<exists>b1. execution_modes_buffers_toggle b =
                  Some ((power_file + POWER_FILE_SIZE * ((sint (current_iteration b) + 1) mod M),
                         traces_file + TRACES_FILE_SIZE * ((sint (current_iteration b) + 1) mod M),
                         online_file + ONLINE_FILE_SIZE * ((sint (current_iteration b) + 1) mod M)), b1)
                \<and> sint (current_iteration b1) = (sint (current_iteration b) + 1) mod M"
    unfolding sc toggle_in_range[OF assms(1,2) t c r] p
    using cv[of "int n mod M + 1"] by simp
  have mm: "int (n + nat M) mod M = int n mod M" using assms(1) by simp
  have m0: "int (nat M) mod M = 0" using assms(1) by simp
  from R[of "n + nat M"] have again: "\<exists>b. toggles (n + nat M) ?b0 =
              Some ((power_file + POWER_FILE_SIZE * (int n mod M),
                     traces_file + TRACES_FILE_SIZE * (int n mod M),
                     online_file + ONLINE_FILE_SIZE * (int n mod M)), b)
            \<and> sint (current_iteration b) = int n mod M"
    unfolding mm using cv[of "int n"] by auto
  from R[of "nat M"] have home: "\<exists>b. toggles (nat M) ?b0 =
         Some ((power_file, traces_file, online_file), b) \<and> sint (current_iteration b) = 0"
    unfolding m0 by auto
  from i b sc step again home show ?thesis by blast
qed

theorem toggle_round_robin_witness:
  "(1::int) < 200 \<and> POWER_FILE_SIZE * 200 < 2 ^ 31
   \<and> (\<exists>b0. execution_modes_buffers_init example_create_buffer_file 200
            = Some ((4294967296, 8589934592, 12884901888), b0)
       \<and> (\<exists>b. toggles 201 b0 =
              Some ((4294967296 + POWER_FILE_SIZE * 1, 8589934592 + TRACES_FILE_SIZE * 1,
                     12884901888 + ONLINE_FILE_SIZE * 1), b)
            \<and> sint (current_iteration b) = 1)
       \<and> (\<exists>b. toggles 200 b0 = Some ((4294967296, 8589934592, 12884901888), b)
            \<and> sint (current_iteration b) = 0))"
proof -
  have h: "(1::int) < 200" "POWER_FILE_SIZE * 200 < 2 ^ 31"
    "example_create_buffer_file POWER_FILE_NAME (word_of_int POWER_FILE_SIZE * word_of_int 200)
       = 4294967296"
    "example_create_buffer_file TRACES_FILE_NAME (word_of_int TRACES_FILE_SIZE * word_of_int 200)
       = 8589934592"
    "example_create_buffer_file ONLINE_FILE_NAME (word_of_int ONLINE_FILE_SIZE * word_of_int 200)
       = 12884901888"
    "(4294967296::int) \<noteq> 0" "(8589934592::int) \<noteq> 0" "(12884901888::int) \<noteq> 0"
    by (simp_all add: POWER_FILE_SIZE_def example_create_buffer_file_def POWER_FILE_NAME_def
        TRACES_FILE_NAME_def ONLINE_FILE_NAME_def)
  from toggle_round_robin[OF h, of 201] show ?thesis using h(1,2) by auto
qed

text \<open>
  Beyond that bound the product wraps: with 7990 segments the power pointer of segment
  3995 lies below the base.
\<close>

lemma toggle_offset_wraps:
  "execution_modes_buffers_toggle
     \<lparr>power_base_ptr = 0, power_current_ptr = 0, traces_base_ptr = 0, traces_current_ptr = 0,
      online_base_ptr = 0, online_current_ptr = 0, total_iterations = 7990,
      current_iteration = 3994\<rparr>
   = Some ((- 2147255296, 81817600, 8181760),
        \<lparr>power_base_ptr = 0, power_current_ptr = - 2147255296, traces_base_ptr = 0,
         traces_current_ptr = 81817600, online_base_ptr = 0, online_current_ptr = 8181760,
         total_iterations = 7990, current_iteration = 3995\<rparr>)"
  by (simp add: execution_modes_buffers_toggle_def POWER_FILE_SIZE_def TRACES_FILE_SIZE_def
      ONLINE_FILE_SIZE_def signed_modulo_int_def)

subsection \<open>Attribution of kernels to a monitoring window\<close>

lemma greater_than_lex: "greater_than_timespec a b = timespec_lex_less b a"
  by (auto simp: greater_than_timespec_def timespec_lex_less_def word_sless_alt)

lemma less_than_lex: "less_than_timespec a b = timespec_lex_less a b"
  by (auto simp: less_than_timespec_def timespec_lex_less_def word_sless_alt)

lemma equal_to_eq: "equal_to_timespec a b = (a = b)"
  by (cases a, cases b) (auto simp: equal_to_timespec_def)

lemma item_size_nonneg: "0 \<le> item_size x"
  by (cases x) simp_all

lemma bytes_nonneg: "0 \<le> sum_list (map item_size xs)"
  by (rule sum_list_nonneg) (auto simp: item_size_nonneg)

lemma memcpy_all_run:
  "memcpy_all xs (buf, n) =
     (if n + sum_list (map item_size xs) \<le> ONLINE_FILE_SIZE \<or> xs = []
      then Some (buf @ xs, n + sum_list (map item_size xs)) else None)"
proof (induction xs arbitrary: buf n)
  case Nil
  then show ?case by simp
next
  case (Cons x xs)
  have a: "0 \<le> sum_list (map item_size xs)" by (rule bytes_nonneg)
  have b: "0 \<le> item_size x" by (rule item_size_nonneg)
  show ?case
  proof (cases "ONLINE_FILE_SIZE < n + item_size x")
    case True
    with a show ?thesis by (simp add: memcpy_online_def)
  next
    case False
    then have "memcpy_all (x # xs) (buf, n) = memcpy_all xs (buf @ [x], n + item_size x)"
      by (simp add: memcpy_online_def)
    also have "\<dots> = (if n + item_size x + sum_list (map item_size xs) \<le> ONLINE_FILE_SIZE \<or> xs = []
      then Some ((buf @ [x]) @ xs, n + item_size x + sum_list (map item_size xs)) else None)"
      by (rule Cons.IH)
    finally show ?thesis using False by (auto simp: add.assoc)
  qed
qed

lemma slot_items_Cons: "slot_items heap mw (p # xs) = slot_items heap mw [p] @ slot_items heap mw xs"
  by (simp add: slot_items_def)

lemma slot_items_Nil: "slot_items heap mw [] = []"
  by (simp add: slot_items_def)

lemma slot_loop_step:
  assumes "mallocs (nat cont)" "cont < num" "n \<le> ONLINE_FILE_SIZE"
  shows "slot_loop heap mw mallocs num cont (\<lparr>nodes_online = (p # xs) @ ys, size_online = sz\<rparr>, kt, buf, n)
    = (if n + sum_list (map item_size (slot_items heap mw [p])) \<le> ONLINE_FILE_SIZE
       then slot_loop heap mw mallocs num (cont + 1)
        (\<lparr>nodes_online = xs @ (ys @ (if window_retain mw (heap p) then [p] else [])),
          size_online = sz - 1 + (if window_retain mw (heap p) then 1 else 0)\<rparr>,
         p, buf @ slot_items heap mw [p], n + sum_list (map item_size (slot_items heap mw [p])))
       else None)"
  using assms
  by (subst slot_loop.simps)
     (simp add: dequeue_online_def enqueue_online_def Let_def greater_than_lex less_than_lex
          equal_to_eq window_retain_def window_write_def snapshot_def slot_items_def
          memcpy_all_run)

lemma slot_loop_run:
  assumes "\<forall>c. mallocs c"
  shows "length xs = nat (num - cont) \<Longrightarrow> cont \<le> num \<Longrightarrow> n \<le> ONLINE_FILE_SIZE \<Longrightarrow>
    slot_loop heap mw mallocs num cont (\<lparr>nodes_online = xs @ ys, size_online = sz\<rparr>, kt, buf, n)
      = (if n + sum_list (map item_size (slot_items heap mw xs)) \<le> ONLINE_FILE_SIZE
         then Some (\<lparr>nodes_online = ys @ filter (\<lambda>p. window_retain mw (heap p)) xs,
               size_online = sz - int (length xs)
                  + int (length (filter (\<lambda>p. window_retain mw (heap p)) xs))\<rparr>,
              (if xs = [] then kt else last xs), buf @ slot_items heap mw xs,
              n + sum_list (map item_size (slot_items heap mw xs)))
         else None)"
proof (induction xs arbitrary: cont ys sz kt buf n)
  case Nil
  then show ?case by (subst slot_loop.simps) (simp add: slot_items_def)
next
  case (Cons p xs)
  then have lt: "cont < num" and len: "length xs = nat (num - (cont + 1))"
    and le: "cont + 1 \<le> num" by auto
  from assms have m: "mallocs (nat cont)" by simp
  let ?b = "sum_list (map item_size (slot_items heap mw [p]))"
  have r: "0 \<le> sum_list (map item_size (slot_items heap mw xs))" by (rule bytes_nonneg)
  have split: "sum_list (map item_size (slot_items heap mw (p # xs)))
      = ?b + sum_list (map item_size (slot_items heap mw xs))"
    unfolding slot_items_Cons[of heap mw p xs] by simp
  show ?case
  proof (cases "n + ?b \<le> ONLINE_FILE_SIZE")
    case False
    with r split show ?thesis
      unfolding slot_loop_step[of mallocs cont num n heap mw p xs ys sz kt buf, OF m lt Cons.prems(3)]
      by simp
  next
    case True
    from Cons.IH[OF len le True, of "ys @ (if window_retain mw (heap p) then [p] else [])"
      "sz - 1 + (if window_retain mw (heap p) then 1 else 0)" p "buf @ slot_items heap mw [p]"]
    show ?thesis
      unfolding slot_loop_step[of mallocs cont num n heap mw p xs ys sz kt buf, OF m lt Cons.prems(3)]
        slot_items_Cons[of heap mw p xs] split
      using True by (auto simp: add.assoc)
  qed
qed


lemma slot_loop_wf:
  assumes "\<forall>c. mallocs c" "size_online q = int (length (nodes_online q))" "n \<le> ONLINE_FILE_SIZE"
  shows "slot_loop heap mw mallocs (get_size_queue_online q) 0 (q, kt, buf, n)
      = (if n + sum_list (map item_size (slot_items heap mw (nodes_online q))) \<le> ONLINE_FILE_SIZE
         then Some (retained heap mw q,
                    (if nodes_online q = [] then kt else last (nodes_online q)),
                    buf @ slot_items heap mw (nodes_online q),
                    n + sum_list (map item_size (slot_items heap mw (nodes_online q))))
         else None)"
proof (cases q)
  case (fields ns sz)
  with assms(2) have sz: "sz = int (length ns)" by simp
  from slot_loop_run[OF assms(1) _ _ assms(3), of ns sz 0 heap mw "[]" sz kt buf] sz
  show ?thesis
    by (simp add: fields retained_def get_size_queue_online_def)
qed

lemma slots_loop_run:
  assumes "\<forall>i c. mallocs i c"
  shows "i \<le> NUM_SLOTS \<Longrightarrow> length qs = NUM_SLOTS \<Longrightarrow>
    \<forall>q\<in>set (drop i qs). size_online q = int (length (nodes_online q)) \<Longrightarrow>
    n \<le> ONLINE_FILE_SIZE \<Longrightarrow>
    (n + sum_list (map item_size
           (concat (map (\<lambda>q. slot_items heap mw (nodes_online q) @ [Int_item 0]) (drop i qs))))
       \<le> ONLINE_FILE_SIZE \<longrightarrow>
     (\<exists>kt1. slots_loop heap mw mallocs i (qs, kt, buf, n)
      = Some (take i qs @ map (retained heap mw) (drop i qs), kt1,
              buf @ concat (map (\<lambda>q. slot_items heap mw (nodes_online q) @ [Int_item 0]) (drop i qs)),
              n + sum_list (map item_size
                (concat (map (\<lambda>q. slot_items heap mw (nodes_online q) @ [Int_item 0]) (drop i qs)))))))
    \<and> (\<not> n + sum_list (map item_size
           (concat (map (\<lambda>q. slot_items heap mw (nodes_online q) @ [Int_item 0]) (drop i qs))))
       \<le> ONLINE_FILE_SIZE \<longrightarrow>
     slots_loop heap mw mallocs i (qs, kt, buf, n) = None)"
proof (induction "NUM_SLOTS - i" arbitrary: i qs kt buf n)
  case 0
  then show ?case by (subst slots_loop.simps) simp
next
  case (Suc k)
  then have lt: "i < NUM_SLOTS" by simp
  with Suc.prems have dr: "drop i qs = qs ! i # drop (Suc i) qs"
    by (simp add: Cons_nth_drop_Suc)
  with Suc.prems have wfi: "size_online (qs ! i) = int (length (nodes_online (qs ! i)))" by simp
  from assms have m: "\<forall>c. mallocs i c" by simp
  let ?S = "slot_items heap mw (nodes_online (qs ! i))"
  let ?R = "concat (map (\<lambda>q. slot_items heap mw (nodes_online q) @ [Int_item 0]) (drop (Suc i) qs))"
  let ?s = "sum_list (map item_size ?S)"
  let ?r = "sum_list (map item_size ?R)"
  have tot: "sum_list (map item_size
           (concat (map (\<lambda>q. slot_items heap mw (nodes_online q) @ [Int_item 0]) (drop i qs))))
      = ?s + 4 + ?r"
    unfolding dr by simp
  have cat: "concat (map (\<lambda>q. slot_items heap mw (nodes_online q) @ [Int_item 0]) (drop i qs))
      = ?S @ [Int_item 0] @ ?R"
    unfolding dr by simp
  have s0: "0 \<le> ?s" and r0: "0 \<le> ?r" by (rule bytes_nonneg)+
  note sl = slot_loop_wf[OF m wfi Suc.prems(4), of heap mw kt buf]
  show ?case
  proof (cases "n + ?s + 4 \<le> ONLINE_FILE_SIZE")
    case False
    then have "slots_loop heap mw mallocs i (qs, kt, buf, n) = None"
      using lt sl by (subst slots_loop.simps) (simp add: memcpy_online_def)
    with False r0 show ?thesis unfolding tot by simp
  next
    case True
    let ?qs1 = "qs[i := retained heap mw (qs ! i)]"
    let ?kt1 = "if nodes_online (qs ! i) = [] then kt else last (nodes_online (qs ! i))"
    have d1: "drop (Suc i) ?qs1 = drop (Suc i) qs" by simp
    have t1: "take (Suc i) ?qs1 = take i qs @ [retained heap mw (qs ! i)]"
      using lt Suc.prems by (simp add: take_Suc_conv_app_nth)
    have unf: "slots_loop heap mw mallocs i (qs, kt, buf, n)
        = slots_loop heap mw mallocs (Suc i) (?qs1, ?kt1, (buf @ ?S) @ [Int_item 0], n + ?s + 4)"
      using lt sl True s0 by (subst slots_loop.simps) (simp add: memcpy_online_def)
    have k: "k = NUM_SLOTS - Suc i" using Suc.hyps by simp
    have le: "Suc i \<le> NUM_SLOTS" using lt by simp
    have ln: "length ?qs1 = NUM_SLOTS" using Suc.prems by simp
    have wf: "\<forall>q\<in>set (drop (Suc i) ?qs1). size_online q = int (length (nodes_online q))"
      using Suc.prems(3) dr by simp
    have res: "take (Suc i) ?qs1 @ map (retained heap mw) (drop (Suc i) ?qs1)
        = take i qs @ map (retained heap mw) (drop i qs)"
      unfolding t1 d1 dr by simp
    note IH = Suc.hyps(1)[OF k le ln wf True, of ?kt1 "(buf @ ?S) @ [Int_item 0]",
        unfolded res, unfolded d1]
    have tot1: "sum_list (map item_size (?S @ [Int_item 0] @ ?R)) = ?s + 4 + ?r" by simp
    show ?thesis
      unfolding unf cat tot1
      using IH by (simp only: append_assoc add.assoc)
  qed
qed


lemma slot_items_bytes:
  "sum_list (map item_size (slot_items heap mw ps))
     = 44 * int (length (filter (\<lambda>p. window_write mw (heap p)) ps))"
  by (induction ps) (simp_all add: slot_items_def)

lemma slots_bytes:
  "sum_list (map item_size
       (concat (map (\<lambda>q. slot_items heap mw (nodes_online q) @ [Int_item 0]) qs)))
     = 4 * int (length qs) + 44 * int (length (written mw heap qs))"
  by (induction qs) (simp_all add: written_def slot_items_bytes)

lemma window_bytes:
  assumes "length online_queue = NUM_SLOTS"
  shows "sum_list (map item_size
           (window_items cpu_usage user_cpu kernel_cpu idle_cpu mw heap online_queue))
     = (if cpu_usage then 96 else 84) + 44 * int (length (written mw heap online_queue))"
  using assms by (simp add: window_items_def slots_bytes NUM_SLOTS_def)

lemma online_processing_run:
  assumes "length online_queue = NUM_SLOTS"
    "\<forall>q\<in>set online_queue. size_online q = int (length (nodes_online q))"
    "\<forall>i c. mallocs i c"
  shows "online_processing traces_ram True cpu_usage user_cpu kernel_cpu idle_cpu mw heap mallocs
           kt online_queue
     = (if int (length (written mw heap online_queue)) \<le> 44
        then Some (map (retained heap mw) online_queue,
                   window_items cpu_usage user_cpu kernel_cpu idle_cpu mw heap online_queue,
                   (if cpu_usage then 96 else 84)
                     + 44 * int (length (written mw heap online_queue)))
        else None)"
proof -
  from assms(2) have w: "\<forall>q\<in>set (drop 0 online_queue). size_online q = int (length (nodes_online q))"
    by simp
  let ?h = "(if cpu_usage then [Float_item user_cpu, Float_item kernel_cpu, Float_item idle_cpu]
             else []) @ [Window_item mw, Int_item (int NUM_SLOTS)]"
  let ?hb = "if cpu_usage then 64 else (52::int)"
  let ?S = "concat (map (\<lambda>q. slot_items heap mw (nodes_online q) @ [Int_item 0]) online_queue)"
  let ?w = "int (length (written mw heap online_queue))"
  have hb: "sum_list (map item_size ?h) = ?hb" by simp
  have h: "memcpy_all ?h ([], 0) = Some (?h, ?hb)"
    unfolding memcpy_all_run hb by (simp add: ONLINE_FILE_SIZE_def)
  have le: "?hb \<le> ONLINE_FILE_SIZE" by (simp add: ONLINE_FILE_SIZE_def)
  have sb: "sum_list (map item_size ?S) = 32 + 44 * ?w"
    unfolding slots_bytes using assms(1) by (simp add: NUM_SLOTS_def)
  have fits: "((if cpu_usage then 96 else 84) + 44 * ?w \<le> ONLINE_FILE_SIZE) = (?w \<le> 44)"
    by (simp add: ONLINE_FILE_SIZE_def) arith
  have tb: "?hb + sum_list (map item_size ?S) = (if cpu_usage then 96 else 84) + 44 * ?w"
    unfolding sb by simp
  have R: "(?w \<le> 44 \<longrightarrow>
       (\<exists>kt1. slots_loop heap mw mallocs 0 (online_queue, kt, ?h, ?hb)
          = Some (map (retained heap mw) online_queue, kt1, ?h @ ?S,
                  (if cpu_usage then 96 else 84) + 44 * ?w)))
     \<and> (\<not> ?w \<le> 44 \<longrightarrow>
          slots_loop heap mw mallocs 0 (online_queue, kt, ?h, ?hb) = None)"
    using slots_loop_run[OF assms(3) le0 assms(1) w le, of heap mw kt ?h]
    by (simp only: drop_0 take_0 append_Nil tb fits)
  show ?thesis
  proof (cases "?w \<le> 44")
    case True
    with R obtain kt1 where "slots_loop heap mw mallocs 0 (online_queue, kt, ?h, ?hb)
      = Some (map (retained heap mw) online_queue, kt1, ?h @ ?S,
              (if cpu_usage then 96 else 84) + 44 * ?w)"
      by auto
    moreover have "\<not> ONLINE_FILE_SIZE - 4 < (if cpu_usage then 96 else 84) + 44 * ?w"
      using True by (simp add: ONLINE_FILE_SIZE_def)
    ultimately show ?thesis
      unfolding online_processing_def h using True
      by (simp add: window_items_def)
  next
    case False
    with R have "slots_loop heap mw mallocs 0 (online_queue, kt, ?h, ?hb) = None" by simp
    then show ?thesis
      unfolding online_processing_def h using False by simp
  qed
qed

lemma sentinel_not_less:
  "\<not> timespec_lex_less \<lparr>tv_sec = LONG_MAX, tv_nsec = LONG_MAX\<rparr> b"
proof -
  have "sint (tv_sec b) < 2 ^ (64 - 1)" "sint (tv_nsec b) < 2 ^ (64 - 1)"
    using sint_lt[of "tv_sec b"] sint_lt[of "tv_nsec b"] by simp_all
  then show ?thesis
    by (simp add: timespec_lex_less_def LONG_MAX_def)
qed

lemma kernel_items_written:
  assumes "Kernel_item k \<in> set (window_items cpu_usage user_cpu kernel_cpu idle_cpu mw heap qs)"
  shows "\<exists>q\<in>set qs. \<exists>p\<in>set (nodes_online q). window_write mw (heap p) \<and> k = snapshot (heap p)"
  using assms by (auto simp: window_items_def slot_items_def split: if_splits)

lemma written_items:
  assumes "q \<in> set qs" "p \<in> set (nodes_online q)" "window_write mw (heap p)"
  shows "Kernel_item (snapshot (heap p))
     \<in> set (window_items cpu_usage user_cpu kernel_cpu idle_cpu mw heap qs)"
  using assms by (auto simp: window_items_def slot_items_def)


lemma window_write_snapshot:
  "snapshot a = snapshot b \<Longrightarrow> window_write mw a = window_write mw b"
  by (simp add: snapshot_def window_write_def)

text \<open>With 45 records or more to write, a copy ends beyond the buffer.\<close>

lemma online_processing_overrun:
  assumes "length online_queue = NUM_SLOTS"
    "\<forall>q\<in>set online_queue. size_online q = int (length (nodes_online q))"
    "\<forall>i c. mallocs i c"
    "44 < int (length (written mw heap online_queue))"
  shows "online_processing traces_ram True cpu_usage user_cpu kernel_cpu idle_cpu mw heap mallocs
           kt online_queue = None"
  unfolding online_processing_run[OF assms(1,2,3)] using assms(4) by simp

text \<open>
  Claim C2.  When every slot's list has as many nodes as its \<^verbatim>\<open>size\<close> says, the
  allocations succeed and at most 44 records are to be written (so that the window fits
  the \<^verbatim>\<open>ONLINE_FILE_SIZE\<close> bytes of the buffer), the buffer \<^verbatim>\<open>online_processing\<close>
  writes is the header followed, for each slot, by the mark 1 and the snapshot of exactly
  those records \<open>r\<close> of the slot's list, in list order, for which
  \<open>r.measured_finish_time > m0\<close> and \<open>r.measured_arrival_time < mf\<close> in the
  lexicographic order, and by the closing mark 0; the byte counter is the size of these
  values; and the snapshot of a record of a slot's list is in the buffer if and only if
  the record satisfies these two comparisons.
\<close>

theorem online_processing_writes:
  assumes "length online_queue = NUM_SLOTS"
    "\<forall>q\<in>set online_queue. size_online q = int (length (nodes_online q))"
    "\<forall>i c. mallocs i c"
    "int (length (written mw heap online_queue)) \<le> 44"
  shows "\<exists>queues1 buf num_bytes.
     online_processing traces_ram True cpu_usage user_cpu kernel_cpu idle_cpu mw heap mallocs
       kt online_queue = Some (queues1, buf, num_bytes)
     \<and> buf = ((if cpu_usage then [Float_item user_cpu, Float_item kernel_cpu, Float_item idle_cpu]
               else []) @ [Window_item mw, Int_item (int NUM_SLOTS)])
             @ concat (map (\<lambda>q. slot_items heap mw (nodes_online q) @ [Int_item 0]) online_queue)
     \<and> num_bytes = sum_list (map item_size buf)
     \<and> num_bytes \<le> ONLINE_FILE_SIZE
     \<and> (\<forall>q\<in>set online_queue. \<forall>p\<in>set (nodes_online q).
           (Kernel_item (snapshot (heap p)) \<in> set buf)
             = (timespec_lex_less (measured_starting_time mw) (measured_finish_time (heap p))
                \<and> timespec_lex_less (measured_arrival_time (heap p)) (mon_measured_finish_time mw)))"
proof -
  let ?buf = "window_items cpu_usage user_cpu kernel_cpu idle_cpu mw heap online_queue"
  let ?n = "(if cpu_usage then 96 else 84) + 44 * int (length (written mw heap online_queue))"
  have r: "online_processing traces_ram True cpu_usage user_cpu kernel_cpu idle_cpu mw heap mallocs
       kt online_queue = Some (map (retained heap mw) online_queue, ?buf, ?n)"
    unfolding online_processing_run[OF assms(1,2,3)] using assms(4) by simp
  have b: "?buf = ((if cpu_usage then [Float_item user_cpu, Float_item kernel_cpu, Float_item idle_cpu]
               else []) @ [Window_item mw, Int_item (int NUM_SLOTS)])
             @ concat (map (\<lambda>q. slot_items heap mw (nodes_online q) @ [Int_item 0]) online_queue)"
    by (simp add: window_items_def)
  have n: "?n = sum_list (map item_size ?buf)"
    unfolding window_bytes[OF assms(1)] ..
  have le: "?n \<le> ONLINE_FILE_SIZE" using assms(4) by (simp add: ONLINE_FILE_SIZE_def)
  have iff: "\<forall>q\<in>set online_queue. \<forall>p\<in>set (nodes_online q).
           (Kernel_item (snapshot (heap p)) \<in> set ?buf)
             = (timespec_lex_less (measured_starting_time mw) (measured_finish_time (heap p))
                \<and> timespec_lex_less (measured_arrival_time (heap p)) (mon_measured_finish_time mw))"
  proof (intro ballI)
    fix q p assume q: "q \<in> set online_queue" and p: "p \<in> set (nodes_online q)"
    have "(Kernel_item (snapshot (heap p)) \<in> set ?buf) = window_write mw (heap p)"
    proof
      assume "Kernel_item (snapshot (heap p)) \<in> set ?buf"
      from kernel_items_written[OF this] obtain p1 where
        "window_write mw (heap p1)" "snapshot (heap p) = snapshot (heap p1)" by blast
      then show "window_write mw (heap p)" using window_write_snapshot by blast
    next
      assume "window_write mw (heap p)"
      from written_items[of q online_queue p mw heap, OF q p this]
      show "Kernel_item (snapshot (heap p)) \<in> set ?buf" .
    qed
    then show "(Kernel_item (snapshot (heap p)) \<in> set ?buf)
             = (timespec_lex_less (measured_starting_time mw) (measured_finish_time (heap p))
                \<and> timespec_lex_less (measured_arrival_time (heap p)) (mon_measured_finish_time mw))"
      by (simp add: window_write_def)
  qed
  from r b n le iff show ?thesis by (intro exI[of _ "map (retained heap mw) online_queue"]
        exI[of _ ?buf] exI[of _ ?n]) (simp only: simp_thms)
qed

lemma example_online_queue_wf:
  "length example_online_queue = NUM_SLOTS"
  "\<forall>q\<in>set example_online_queue. size_online q = int (length (nodes_online q))"
  "\<forall>i c. all_mallocs_succeed i c"
  by (simp_all add: example_online_queue_def NUM_SLOTS_def init_queue_online_def
      all_mallocs_succeed_def)

lemma example_window_write:
  "window_write example_window (example_heap 0)"
  "\<not> window_write example_window (example_heap 1)"
  "window_write example_window (example_heap 2)"
  by (simp_all add: window_write_def timespec_lex_less_def example_window_def example_heap_def
      example_kernel_def LONG_MAX_def)

lemma example_written: "int (length (written example_window example_heap example_online_queue)) \<le> 44"
  using example_window_write
  by (simp add: written_def example_online_queue_def init_queue_online_def)

theorem online_processing_writes_witness:
  "\<exists>queues1.
     online_processing False True False 0 0 0 example_window example_heap all_mallocs_succeed 0
       example_online_queue
     = Some (queues1,
             [Window_item example_window, Int_item 8,
              Int_item 1, Kernel_item (snapshot (example_heap 0)),
              Int_item 1, Kernel_item (snapshot (example_heap 2)),
              Int_item 0, Int_item 0, Int_item 0, Int_item 0,
              Int_item 0, Int_item 0, Int_item 0, Int_item 0], 172)"
proof -
  have "concat (map (\<lambda>q. slot_items example_heap example_window (nodes_online q) @ [Int_item 0])
           example_online_queue)
      = [Int_item 1, Kernel_item (snapshot (example_heap 0)),
         Int_item 1, Kernel_item (snapshot (example_heap 2)),
         Int_item 0, Int_item 0, Int_item 0, Int_item 0,
         Int_item 0, Int_item 0, Int_item 0, Int_item 0]"
    using example_window_write
    by (simp add: example_online_queue_def slot_items_def init_queue_online_def numeral_eq_Suc)
  with online_processing_writes[OF example_online_queue_wf example_written,
      of False False 0 0 0 0]
  show ?thesis by (auto simp: NUM_SLOTS_def)
qed

text \<open>
  Claim C3.  Under the same conditions the list \<^verbatim>\<open>online_processing\<close> leaves on
  each slot holds exactly the records \<open>r\<close> of the slot's list for which
  \<open>r.measured_finish_time > mf\<close> or \<open>r.measured_arrival_time = r.measured_finish_time\<close>,
  in their order; a record of a slot's list whose arrival and finish times are both
  \<open>(LONG_MAX, LONG_MAX)\<close> is on the list the call leaves, and no snapshot in the
  buffer the call has written carries these two times.
\<close>

theorem online_processing_retains:
  assumes "length online_queue = NUM_SLOTS"
    "\<forall>q\<in>set online_queue. size_online q = int (length (nodes_online q))"
    "\<forall>i c. mallocs i c"
    "int (length (written mw heap online_queue)) \<le> 44"
  shows "\<exists>queues1 buf num_bytes.
     online_processing traces_ram True cpu_usage user_cpu kernel_cpu idle_cpu mw heap mallocs
       kt online_queue = Some (queues1, buf, num_bytes)
     \<and> length queues1 = NUM_SLOTS
     \<and> (\<forall>i<NUM_SLOTS.
          nodes_online (queues1 ! i)
            = filter (\<lambda>p. timespec_lex_less (mon_measured_finish_time mw)
                              (measured_finish_time (heap p))
                          \<or> measured_arrival_time (heap p) = measured_finish_time (heap p))
                (nodes_online (online_queue ! i))
          \<and> size_online (queues1 ! i) = int (length (nodes_online (queues1 ! i))))
     \<and> (\<forall>i<NUM_SLOTS. \<forall>p\<in>set (nodes_online (online_queue ! i)).
          measured_arrival_time (heap p) = \<lparr>tv_sec = LONG_MAX, tv_nsec = LONG_MAX\<rparr>
          \<and> measured_finish_time (heap p) = \<lparr>tv_sec = LONG_MAX, tv_nsec = LONG_MAX\<rparr>
          \<longrightarrow> p \<in> set (nodes_online (queues1 ! i)))
     \<and> (\<forall>k. Kernel_item k \<in> set buf \<longrightarrow>
          \<not> (arrival_time k = \<lparr>tv_sec = LONG_MAX, tv_nsec = LONG_MAX\<rparr>
             \<and> finish_time k = \<lparr>tv_sec = LONG_MAX, tv_nsec = LONG_MAX\<rparr>))"
proof -
  let ?buf = "window_items cpu_usage user_cpu kernel_cpu idle_cpu mw heap online_queue"
  let ?n = "(if cpu_usage then 96 else 84) + 44 * int (length (written mw heap online_queue))"
  let ?qs = "map (retained heap mw) online_queue"
  have r: "online_processing traces_ram True cpu_usage user_cpu kernel_cpu idle_cpu mw heap mallocs
       kt online_queue = Some (?qs, ?buf, ?n)"
    unfolding online_processing_run[OF assms(1,2,3)] using assms(4) by simp
  have l: "length ?qs = NUM_SLOTS" using assms(1) by simp
  have f: "\<forall>i<NUM_SLOTS.
          nodes_online (?qs ! i)
            = filter (\<lambda>p. timespec_lex_less (mon_measured_finish_time mw)
                              (measured_finish_time (heap p))
                          \<or> measured_arrival_time (heap p) = measured_finish_time (heap p))
                (nodes_online (online_queue ! i))
          \<and> size_online (?qs ! i) = int (length (nodes_online (?qs ! i)))"
    using assms(1) by (simp add: retained_def window_retain_def)
  have s: "\<forall>i<NUM_SLOTS. \<forall>p\<in>set (nodes_online (online_queue ! i)).
          measured_arrival_time (heap p) = \<lparr>tv_sec = LONG_MAX, tv_nsec = LONG_MAX\<rparr>
          \<and> measured_finish_time (heap p) = \<lparr>tv_sec = LONG_MAX, tv_nsec = LONG_MAX\<rparr>
          \<longrightarrow> p \<in> set (nodes_online (?qs ! i))"
    using assms(1) by (simp add: retained_def window_retain_def)
  have w: "\<forall>k. Kernel_item k \<in> set ?buf \<longrightarrow>
          \<not> (arrival_time k = \<lparr>tv_sec = LONG_MAX, tv_nsec = LONG_MAX\<rparr>
             \<and> finish_time k = \<lparr>tv_sec = LONG_MAX, tv_nsec = LONG_MAX\<rparr>)"
  proof (intro allI impI notI)
    fix k assume "Kernel_item k \<in> set ?buf"
      and t: "arrival_time k = \<lparr>tv_sec = LONG_MAX, tv_nsec = LONG_MAX\<rparr>
         \<and> finish_time k = \<lparr>tv_sec = LONG_MAX, tv_nsec = LONG_MAX\<rparr>"
    from kernel_items_written[OF this(1)] obtain p where
      ww: "window_write mw (heap p)" and k: "k = snapshot (heap p)" by blast
    from t k have "measured_arrival_time (heap p) = \<lparr>tv_sec = LONG_MAX, tv_nsec = LONG_MAX\<rparr>"
      by (simp add: snapshot_def)
    with ww show False by (simp add: window_write_def sentinel_not_less)
  qed
  from r l f s w show ?thesis by (intro exI[of _ ?qs] exI[of _ ?buf] exI[of _ ?n])
      (simp only: simp_thms)
qed

theorem online_processing_retains_witness:
  "\<exists>queues1 buf num_bytes.
     online_processing False True False 0 0 0 example_window example_heap all_mallocs_succeed 0
       example_online_queue = Some (queues1, buf, num_bytes)
   \<and> nodes_online (queues1 ! 0) = [1, 2]
   \<and> size_online (queues1 ! 0) = 2
   \<and> measured_arrival_time (example_heap 1) = \<lparr>tv_sec = LONG_MAX, tv_nsec = LONG_MAX\<rparr>
   \<and> measured_finish_time (example_heap 1) = \<lparr>tv_sec = LONG_MAX, tv_nsec = LONG_MAX\<rparr>
   \<and> Kernel_item (snapshot (example_heap 1)) \<notin> set buf"
proof -
  from online_processing_retains[OF example_online_queue_wf example_written,
      of False False 0 0 0 0]
  obtain queues1 buf num_bytes where
    r: "online_processing False True False 0 0 0 example_window example_heap all_mallocs_succeed 0
       example_online_queue = Some (queues1, buf, num_bytes)"
    and f: "\<forall>i<NUM_SLOTS.
          nodes_online (queues1 ! i)
            = filter (\<lambda>p. timespec_lex_less (mon_measured_finish_time example_window)
                              (measured_finish_time (example_heap p))
                          \<or> measured_arrival_time (example_heap p)
                              = measured_finish_time (example_heap p))
                (nodes_online (example_online_queue ! i))
          \<and> size_online (queues1 ! i) = int (length (nodes_online (queues1 ! i)))"
    and w: "\<forall>k. Kernel_item k \<in> set buf \<longrightarrow>
          \<not> (arrival_time k = \<lparr>tv_sec = LONG_MAX, tv_nsec = LONG_MAX\<rparr>
             \<and> finish_time k = \<lparr>tv_sec = LONG_MAX, tv_nsec = LONG_MAX\<rparr>)"
    by blast
  have s: "measured_arrival_time (example_heap 1) = \<lparr>tv_sec = LONG_MAX, tv_nsec = LONG_MAX\<rparr>"
      "measured_finish_time (example_heap 1) = \<lparr>tv_sec = LONG_MAX, tv_nsec = LONG_MAX\<rparr>"
    by (simp_all add: example_heap_def example_kernel_def)
  from f have "nodes_online (queues1 ! 0)
            = filter (\<lambda>p. timespec_lex_less (mon_measured_finish_time example_window)
                              (measured_finish_time (example_heap p))
                          \<or> measured_arrival_time (example_heap p)
                              = measured_finish_time (example_heap p))
                (nodes_online (example_online_queue ! 0))"
      and sz: "size_online (queues1 ! 0) = int (length (nodes_online (queues1 ! 0)))"
    by (simp_all add: NUM_SLOTS_def)
  then have n: "nodes_online (queues1 ! 0) = [1, 2]"
    by (simp add: example_online_queue_def timespec_lex_less_def example_window_def
        example_heap_def example_kernel_def LONG_MAX_def)
  from w s have nw: "Kernel_item (snapshot (example_heap 1)) \<notin> set buf"
    by (auto simp: snapshot_def)
  from r n sz s nw show ?thesis by auto
qed

subsection \<open>Selection of the slots of a dispatched kernel\<close>

lemma filter_nth_update:
  "filter (\<lambda>k. xs[i := v] ! k = 0) [Suc i..<n] = filter (\<lambda>k. xs ! k = (0::int)) [Suc i..<n]"
  by (rule filter_cong) auto

lemma select_slots_run:
  "length slots = NUM_SLOTS \<Longrightarrow> j < cu_k \<Longrightarrow>
   select_slots i j cu_k slots sid =
     (fold (\<lambda>k sl. sl[k := 1]) (take (nat (cu_k - j)) (filter (\<lambda>k. slots ! k = 0) [i..<NUM_SLOTS])) slots,
      fold (\<lambda>k w. w OR push_bit k 1) (take (nat (cu_k - j)) (filter (\<lambda>k. slots ! k = 0) [i..<NUM_SLOTS])) sid)"
proof (induction i j cu_k slots sid rule: select_slots.induct)
  case (1 i j cu_k slots sid)
  show ?case
  proof (cases "i < NUM_SLOTS")
    case False
    then show ?thesis by (subst select_slots.simps) simp
  next
    case lt: True
    then have up: "[i..<NUM_SLOTS] = i # [Suc i..<NUM_SLOTS]" by (simp add: upt_conv_Cons)
    show ?thesis
    proof (cases "slots ! i = 0")
      case False
      with lt "1.IH"(2) "1.prems" show ?thesis
        by (subst select_slots.simps) (simp add: up)
    next
      case z: True
      show ?thesis
      proof (cases "cu_k = j + 1")
        case True
        with lt z show ?thesis
          by (subst select_slots.simps) (simp add: up)
      next
        case False
        with "1.prems" have j1: "j + 1 < cu_k" by simp
        then have tk: "nat (cu_k - j) = Suc (nat (cu_k - (j + 1)))" by simp
        from "1.IH"(1)[OF lt z False _ j1] "1.prems"
        have "select_slots (i + 1) (j + 1) cu_k (slots[i := 1]) (sid OR push_bit i 1) =
          (fold (\<lambda>k sl. sl[k := 1])
             (take (nat (cu_k - (j + 1))) (filter (\<lambda>k. slots[i := 1] ! k = 0) [i + 1..<NUM_SLOTS]))
             (slots[i := 1]),
           fold (\<lambda>k w. w OR push_bit k 1)
             (take (nat (cu_k - (j + 1))) (filter (\<lambda>k. slots[i := 1] ! k = 0) [i + 1..<NUM_SLOTS]))
             (sid OR push_bit i 1))"
          by simp
        with lt z False show ?thesis
          by (subst select_slots.simps) (simp add: up tk filter_nth_update)
      qed
    qed
  qed
qed

lemma fold_update_nth:
  "i < length xs \<Longrightarrow> fold (\<lambda>k sl. sl[k := v]) F xs ! i = (if i \<in> set F then v else xs ! i)"
  by (induction F arbitrary: xs) (auto simp: nth_list_update)

lemma fold_update_length: "length (fold (\<lambda>k sl. sl[k := v]) F xs) = length xs"
  by (induction F arbitrary: xs) auto

lemma bit_or_shift:
  "bit ((w :: 32 word) OR push_bit k 1) i = (bit w i \<or> (i = k \<and> k < 32))"
  by (auto simp: bit_or_iff bit_exp_iff)

lemma bit_fold_or:
  "bit (fold (\<lambda>k w. w OR push_bit k 1) F (sid :: 32 word)) i = (bit sid i \<or> (i \<in> set F \<and> i < 32))"
proof (induction F arbitrary: sid)
  case Nil
  then show ?case by simp
next
  case (Cons k F)
  have "bit (fold (\<lambda>k w. w OR push_bit k 1) F (sid OR push_bit k 1)) i
      = (bit (sid OR push_bit k 1) i \<or> (i \<in> set F \<and> i < 32))"
    by (rule Cons.IH)
  then show ?case unfolding bit_or_shift by (simp del: push_bit_of_1) blast
qed

lemma popcount_card: "popcount w = card {i. bit w i}"
proof -
  have "{i. bit w i} = set (filter (bit w) [0..<32])"
    by (auto dest: bit_imp_le_length)
  moreover have "distinct (filter (bit w) [0..<32])" by simp
  then have "card (set (filter (bit w) [0..<32])) = length (filter (bit w) [0..<32])"
    by (rule distinct_card)
  ultimately show ?thesis
    unfolding popcount_def by presburger
qed

lemma zeros_card: "length (filter (\<lambda>x. x = (0::int)) xs) = card {i. i < length xs \<and> xs ! i = 0}"
  by (simp add: length_filter_conv_card)

lemma free_filter_length:
  assumes "length slots = NUM_SLOTS"
  shows "length (filter (\<lambda>i. slots ! i = 0) [0..<NUM_SLOTS]) = length (filter (\<lambda>x. x = (0::int)) slots)"
proof -
  have "length (filter (\<lambda>i. slots ! i = 0) [0..<NUM_SLOTS])
      = card {i. i < NUM_SLOTS \<and> slots ! i = 0}"
    unfolding length_filter_conv_card by (rule arg_cong[where f = card]) auto
  then show ?thesis using assms by (simp add: zeros_card)
qed

lemma lowest_free_props:
  assumes "length slots = NUM_SLOTS" "int n \<le> int (length (filter (\<lambda>x. x = 0) slots))"
  shows "length (lowest_free n slots) = n" "distinct (lowest_free n slots)"
    "sorted (lowest_free n slots)"
    "\<forall>i\<in>set (lowest_free n slots). i < NUM_SLOTS \<and> slots ! i = 0"
proof -
  show "length (lowest_free n slots) = n"
    using assms free_filter_length[OF assms(1)] by (simp add: lowest_free_def)
  show "distinct (lowest_free n slots)" by (simp add: lowest_free_def)
  show "sorted (lowest_free n slots)"
    unfolding lowest_free_def by (intro sorted_wrt_take sorted_wrt_filter) simp
  show "\<forall>i\<in>set (lowest_free n slots). i < NUM_SLOTS \<and> slots ! i = 0"
    by (auto simp: lowest_free_def dest!: in_set_takeD)
qed

lemma select_slots_spec:
  assumes "length slots = NUM_SLOTS" "1 \<le> cu_k"
  shows "select_slots 0 0 cu_k slots sid =
     (fold (\<lambda>k sl. sl[k := 1]) (lowest_free (nat cu_k) slots) slots,
      fold (\<lambda>k w. w OR push_bit k 1) (lowest_free (nat cu_k) slots) sid)"
  using select_slots_run[OF assms(1), of 0 cu_k 0 sid] assms(2) by (simp add: lowest_free_def)

lemma popcount_fold:
  assumes "distinct F" "\<forall>i\<in>set F. i < 32"
  shows "popcount (fold (\<lambda>k w. w OR push_bit k 1) F 0) = length F"
proof -
  have "\<And>i. bit (fold (\<lambda>k w. w OR push_bit k 1) F (0::32 word)) i = (i \<in> set F)"
    unfolding bit_fold_or using assms(2) by auto
  then have "{i. bit (fold (\<lambda>k w. w OR push_bit k 1) F (0::32 word)) i} = set F"
    by blast
  then show ?thesis using assms(1) by (simp add: popcount_card distinct_card)
qed

lemma select_slots_effect:
  assumes "length slots = NUM_SLOTS" "1 \<le> cu_k"
    "cu_k \<le> int (length (filter (\<lambda>x. x = 0) slots))"
  shows "case select_slots 0 0 cu_k slots sid of (slots1, sid1) \<Rightarrow>
       length (lowest_free (nat cu_k) slots) = nat cu_k
     \<and> length slots1 = NUM_SLOTS
     \<and> (\<forall>i<NUM_SLOTS. slots1 ! i = (if i \<in> set (lowest_free (nat cu_k) slots) then 1 else slots ! i))
     \<and> (\<forall>i. bit sid1 i = (bit sid i \<or> i \<in> set (lowest_free (nat cu_k) slots)))
     \<and> (sid = 0 \<longrightarrow> popcount sid1 = nat cu_k)"
proof -
  let ?F = "lowest_free (nat cu_k) slots"
  have n: "int (nat cu_k) \<le> int (length (filter (\<lambda>x. x = 0) slots))" using assms by simp
  note P = lowest_free_props[OF assms(1) n]
  have lt32: "\<forall>i\<in>set ?F. i < 32" using P(4) by (auto simp: NUM_SLOTS_def)
  have a: "\<forall>i<NUM_SLOTS. fold (\<lambda>k sl. sl[k := 1]) ?F slots ! i = (if i \<in> set ?F then 1 else slots ! i)"
    using assms(1) by (simp add: fold_update_nth)
  have b: "\<forall>i. bit (fold (\<lambda>k w. w OR push_bit k 1) ?F sid) i = (bit sid i \<or> i \<in> set ?F)"
    unfolding bit_fold_or using lt32 by auto
  have c: "popcount (fold (\<lambda>k w. w OR push_bit k 1) ?F 0) = nat cu_k"
    unfolding popcount_fold[OF P(2) lt32] by (rule P(1))
  have d: "length (fold (\<lambda>k sl. sl[k := 1]) ?F slots) = NUM_SLOTS"
    unfolding fold_update_length by (rule assms(1))
  show ?thesis
    unfolding select_slots_spec[OF assms(1,2)] prod.case
    using a b c d P(1) by blast
qed

subsection \<open>Admission of the producer's records\<close>

lemma tmp_cu_nth: "tmp_cu ! (r mod 4) \<in> {1, 2, 4, 8}"
proof -
  have "r mod 4 < 4" by simp
  then have "r mod 4 = 0 \<or> r mod 4 = 1 \<or> r mod 4 = 2 \<or> r mod 4 = 3" by linarith
  then show ?thesis by (auto simp: tmp_cu_def)
qed

lemma aux_kernel_data_fields:
  "kernel_label (aux_kernel_data w t0 tm i) = kernel_label_buffer w i"
  "num_executions (aux_kernel_data w t0 tm i) = num_executions_buffer w i"
  "cu (aux_kernel_data w t0 tm i) \<in> {1, 2, 4, 8}"
  "slot_id (aux_kernel_data w t0 tm i) = 0"
  using tmp_cu_nth[of "rand_values w i"] by (simp_all add: aux_kernel_data_def)

lemma fill_generation_queue_run:
  "\<forall>j<nk. generation_malloc w j \<Longrightarrow> i \<le> nk \<Longrightarrow>
   \<exists>tm rs. fill_generation_queue nk w t0 i (timer, q)
       = Some (tm, q\<lparr>nodes := nodes q @ rs, size := size q + int (length rs)\<rparr>)
     \<and> length rs = nk - i
     \<and> (\<forall>j<nk - i. kernel_label (rs ! j) = kernel_label_buffer w (i + j)
            \<and> num_executions (rs ! j) = num_executions_buffer w (i + j)
            \<and> cu (rs ! j) \<in> {1, 2, 4, 8} \<and> slot_id (rs ! j) = 0)"
proof (induction "nk - i" arbitrary: i timer q)
  case 0
  then have "i = nk" by simp
  then show ?case by (subst fill_generation_queue.simps) simp
next
  case (Suc n)
  then have lt: "i < nk" and n: "n = nk - (i + 1)" and le: "i + 1 \<le> nk" by simp_all
  let ?d = "aux_kernel_data w t0 timer i"
  let ?q1 = "q\<lparr>nodes := nodes q @ [?d], size := size q + 1\<rparr>"
  from Suc.hyps(1)[OF n Suc.prems(1) le, of "commanded_arrival_time ?d" ?q1]
  obtain tm rs where
    r: "fill_generation_queue nk w t0 (i + 1) (commanded_arrival_time ?d, ?q1)
       = Some (tm, ?q1\<lparr>nodes := nodes ?q1 @ rs, size := size ?q1 + int (length rs)\<rparr>)"
    and l: "length rs = nk - (i + 1)"
    and f: "\<forall>j<nk - (i + 1). kernel_label (rs ! j) = kernel_label_buffer w (i + 1 + j)
            \<and> num_executions (rs ! j) = num_executions_buffer w (i + 1 + j)
            \<and> cu (rs ! j) \<in> {1, 2, 4, 8} \<and> slot_id (rs ! j) = 0"
    by blast
  have m: "generation_malloc w i" using Suc.prems(1) lt by simp
  have e: "fill_generation_queue nk w t0 i (timer, q)
      = Some (tm, q\<lparr>nodes := nodes q @ (?d # rs), size := size q + int (length (?d # rs))\<rparr>)"
    using lt m r by (subst fill_generation_queue.simps) (simp add: enqueue_def Let_def)
  have p: "\<forall>j<nk - i. kernel_label ((?d # rs) ! j) = kernel_label_buffer w (i + j)
            \<and> num_executions ((?d # rs) ! j) = num_executions_buffer w (i + j)
            \<and> cu ((?d # rs) ! j) \<in> {1, 2, 4, 8} \<and> slot_id ((?d # rs) ! j) = 0"
  proof (intro allI impI)
    fix j assume j: "j < nk - i"
    show "kernel_label ((?d # rs) ! j) = kernel_label_buffer w (i + j)
            \<and> num_executions ((?d # rs) ! j) = num_executions_buffer w (i + j)
            \<and> cu ((?d # rs) ! j) \<in> {1, 2, 4, 8} \<and> slot_id ((?d # rs) ! j) = 0"
    proof (cases j)
      case 0
      then show ?thesis using aux_kernel_data_fields[of w t0 timer i] by simp
    next
      case (Suc j1)
      with j have "j1 < nk - (i + 1)" by simp
      with f Suc show ?thesis by simp
    qed
  qed
  have ll: "length (?d # rs) = nk - i" using l lt by simp
  from e p ll show ?case by blast
qed

lemma producer_step_admit:
  assumes "producer s = Admit" "admitted s < nk" "nodes (kernel_generation_queue s) = k # rest"
  shows "producer_step nk malloc_ok s =
     (if malloc_ok
      then Some (s\<lparr>kernel_generation_queue :=
                     (kernel_generation_queue s)\<lparr>nodes := rest,
                        size := size (kernel_generation_queue s) - 1\<rparr>,
                   kernel_execution_queue :=
                     (kernel_execution_queue s)\<lparr>nodes := nodes (kernel_execution_queue s) @ [k],
                        size := size (kernel_execution_queue s) + 1\<rparr>,
                   producer_aux := k,
                   producer := Notify\<rparr>)
      else None)"
  using assms by (simp add: producer_step_def dequeue_def enqueue_def)

text \<open>
  Claim C7, as the code has it.  Admission inspects neither the label nor the executions
  count.  When the allocations succeed, the filling loop puts all \<open>nk\<close> records built
  from the input arrays on the generation queue, each with the label and the executions
  count found in the arrays whatever their values; and an admission step moves the head
  of the generation queue to the tail of the execution queue unchanged.  The only
  rejection is the failure of an allocation, which ends the process.
\<close>

theorem admission_unchecked:
  assumes "\<forall>j<nk. generation_malloc w j"
  shows "(\<exists>tm gq. fill_generation_queue nk w t0 0 (t0, init_queue) = Some (tm, gq)
            \<and> length (nodes gq) = nk \<and> size gq = int nk
            \<and> (\<forall>j<nk. kernel_label (nodes gq ! j) = kernel_label_buffer w j
                  \<and> num_executions (nodes gq ! j) = num_executions_buffer w j))
     \<and> (\<forall>s k rest n malloc_ok.
           producer s = Admit \<and> admitted s < n \<and> nodes (kernel_generation_queue s) = k # rest
           \<longrightarrow> producer_step n malloc_ok s =
             (if malloc_ok
              then Some (s\<lparr>kernel_generation_queue :=
                             (kernel_generation_queue s)\<lparr>nodes := rest,
                                size := size (kernel_generation_queue s) - 1\<rparr>,
                           kernel_execution_queue :=
                             (kernel_execution_queue s)\<lparr>nodes := nodes (kernel_execution_queue s) @ [k],
                                size := size (kernel_execution_queue s) + 1\<rparr>,
                           producer_aux := k,
                           producer := Notify\<rparr>)
              else None))"
proof -
  from fill_generation_queue_run[OF assms, of 0 t0 t0 init_queue]
  obtain tm rs where
    r: "fill_generation_queue nk w t0 0 (t0, init_queue)
       = Some (tm, init_queue\<lparr>nodes := nodes init_queue @ rs,
                  size := size init_queue + int (length rs)\<rparr>)"
    and l: "length rs = nk"
    and f: "\<forall>j<nk. kernel_label (rs ! j) = kernel_label_buffer w j
            \<and> num_executions (rs ! j) = num_executions_buffer w j"
    by auto
  have a: "\<exists>tm gq. fill_generation_queue nk w t0 0 (t0, init_queue) = Some (tm, gq)
            \<and> length (nodes gq) = nk \<and> size gq = int nk
            \<and> (\<forall>j<nk. kernel_label (nodes gq ! j) = kernel_label_buffer w j
                  \<and> num_executions (nodes gq ! j) = num_executions_buffer w j)"
    using r l f by (simp add: init_queue_def)
  show ?thesis
    using a producer_step_admit by blast
qed

theorem admission_unchecked_witness:
  "\<exists>tm gq. fill_generation_queue 2 example_bad_workload zero_timespec 0 (zero_timespec, init_queue)
       = Some (tm, gq)
     \<and> length (nodes gq) = 2 \<and> size gq = 2
     \<and> kernel_label (nodes gq ! 1) = 11 \<and> num_executions (nodes gq ! 1) = 0"
proof -
  have h: "\<forall>j<2. generation_malloc example_bad_workload j"
    by (simp add: example_bad_workload_def)
  from admission_unchecked[OF h, of zero_timespec] show ?thesis
    by (auto simp: example_bad_workload_def)
qed

text \<open>
  A record with label 11, outside \<open>[0, TYPES_OF_KERNELS)\<close>, and 0 executions is not
  rejected: it is put on the generation queue and the admission step appends it to the
  execution queue, from which the scheduler dispatches.
\<close>

theorem admission_accepts_bad_record:
  "\<not> (11 < TYPES_OF_KERNELS)
   \<and> (case fill_generation_queue 1 example_bad_workload zero_timespec 0 (zero_timespec, init_queue) of
        None \<Rightarrow> []
      | Some (tm, gq) \<Rightarrow>
          (case producer_step 1 True
                  (init_system gq (example_kernel 0 zero_timespec zero_timespec)
                     (example_kernel 0 zero_timespec zero_timespec)) of
             None \<Rightarrow> []
           | Some s \<Rightarrow>
               map (\<lambda>k. (kernel_label k, num_executions k)) (nodes (kernel_execution_queue s))))
     = [(11, 0)]"
  by (simp add: fill_generation_queue.simps enqueue_def dequeue_def producer_step_def
      init_system_def init_queue_def aux_kernel_data_def example_bad_workload_def
      TYPES_OF_KERNELS_def Let_def)

subsection \<open>Release of the slots of a completed kernel\<close>

lemma and_shift_cases:
  "(sid :: 32 word) AND push_bit j 1 = (if bit sid j then push_bit j 1 else 0)"
  by (rule bit_eqI) (auto simp: bit_and_iff bit_exp_iff)

lemma shift_positive:
  assumes "j < 31"
  shows "0 <s (push_bit j 1 :: 32 word)"
proof -
  have lt: "(2::int) ^ j < 2 ^ 31" using assms by (intro power_strict_increasing) simp_all
  have "sint (word_of_int (2 ^ j) :: 32 word) = signed_take_bit (LENGTH(32) - 1) ((2::int) ^ j)"
    by (rule sint_sbintrunc')
  also have "\<dots> = signed_take_bit 31 ((2::int) ^ j)" by simp
  also have "\<dots> = 2 ^ j"
  proof (rule signed_take_bit_int_eq_self)
    show "- (2 ^ 31) \<le> (2::int) ^ j" by (rule order_trans[of _ 0]) simp_all
    show "(2::int) ^ j < 2 ^ 31" by (rule lt)
  qed
  finally have "sint (2 ^ j :: 32 word) = 2 ^ j" by simp
  then show ?thesis by (simp add: word_sless_alt)
qed

lemma test_bit: "j < 31 \<Longrightarrow> (0 <s ((sid :: 32 word) AND push_bit j 1)) = bit sid j"
  using shift_positive[of j] by (simp add: and_shift_cases del: push_bit_of_1)


lemma finite_bits: "finite {b. bit (sid :: 32 word) b}"
proof -
  have "{b. bit sid b} \<subseteq> {..<32}" by (auto dest: bit_imp_le_length)
  then show ?thesis by (rule finite_subset) simp
qed

lemma bits_below_Suc:
  "{b. b < Suc j \<and> bit (sid :: 32 word) b} =
     (if bit sid j then insert j {b. b < j \<and> bit sid b} else {b. b < j \<and> bit sid b})"
  by (auto simp: less_Suc_eq)

lemma release_slots_run:
  assumes "length slots0 = NUM_SLOTS" "\<forall>b. bit sid b \<longrightarrow> b < NUM_SLOTS"
    "int (card {b. bit sid b}) = cu_k"
  shows "length slots = NUM_SLOTS \<Longrightarrow> i = int (card {b. b < j \<and> bit sid b}) \<Longrightarrow>
    \<exists>slots1. release_slots i j cu_k sid slots = Some slots1 \<and> length slots1 = NUM_SLOTS
      \<and> (\<forall>b<NUM_SLOTS. slots1 ! b = (if j \<le> b \<and> bit sid b then 0 else slots ! b))"
proof (induction "NUM_SLOTS - j" arbitrary: i j slots)
  case 0
  then have "{b. b < j \<and> bit sid b} = {b. bit sid b}" using assms(2) by auto
  with 0 assms(3) have "i = cu_k" by simp
  moreover have "\<forall>b<NUM_SLOTS. \<not> (j \<le> b)" using 0 by simp
  ultimately show ?case using 0 by (subst release_slots.simps) simp
next
  case (Suc n)
  then have jN: "j < NUM_SLOTS" by simp
  then have j31: "j < 31" by (simp add: NUM_SLOTS_def)
  have sub: "{b. b < j \<and> bit sid b} \<subseteq> {b. bit sid b}" by auto
  have "card {b. b < j \<and> bit sid b} \<le> card {b. bit sid b}"
    by (rule card_mono[OF finite_bits sub])
  then have "int (card {b. b < j \<and> bit sid b}) \<le> int (card {b. bit sid b})"
    by (simp only: of_nat_le_iff)
  then have le: "i \<le> cu_k"
    unfolding Suc.prems(2) assms(3) .
  show ?case
  proof (cases "i < cu_k")
    case False
    with le have e: "i = cu_k" by simp
    have "int (card {b. b < j \<and> bit sid b}) = int (card {b. bit sid b})"
      using e unfolding Suc.prems(2) assms(3) .
    then have "card {b. b < j \<and> bit sid b} = card {b. bit sid b}"
      by (simp only: of_nat_eq_iff)
    then have eq: "{b. b < j \<and> bit sid b} = {b. bit sid b}"
      by (rule card_subset_eq[OF finite_bits sub])
    have nb: "\<forall>b. j \<le> b \<longrightarrow> \<not> bit sid b"
    proof (intro allI impI notI)
      fix b assume "j \<le> b" "bit sid b"
      then have "b \<in> {b. bit sid b}" by simp
      then have "b \<in> {b. b < j \<and> bit sid b}" unfolding eq .
      with \<open>j \<le> b\<close> show False by simp
    qed
    have "release_slots i j cu_k sid slots = Some slots"
      using False by (subst release_slots.simps) simp
    with nb Suc.prems(1) show ?thesis by auto
  next
    case True
    have n: "n = NUM_SLOTS - (j + 1)" using Suc.hyps(2) by simp
    show ?thesis
    proof (cases "bit sid j")
      case b: True
      have len: "length (slots[j := 0]) = NUM_SLOTS" using Suc.prems by simp
      have "j \<notin> {b. b < j \<and> bit sid b}" by simp
      moreover have "finite {b. b < j \<and> bit sid b}" by (rule finite_subset[OF sub finite_bits])
      ultimately have i1: "i + 1 = int (card {b. b < j + 1 \<and> bit sid b})"
        using Suc.prems(2) b by (simp add: bits_below_Suc)
      from Suc.hyps(1)[OF n len i1] obtain slots1 where
        r: "release_slots (i + 1) (j + 1) cu_k sid (slots[j := 0]) = Some slots1"
        and l: "length slots1 = NUM_SLOTS"
        and v: "\<forall>b<NUM_SLOTS. slots1 ! b = (if j + 1 \<le> b \<and> bit sid b then 0 else slots[j := 0] ! b)"
        by blast
      have v1: "\<forall>b<NUM_SLOTS. slots1 ! b = (if j \<le> b \<and> bit sid b then 0 else slots ! b)"
      proof (intro allI impI)
        fix c assume c: "c < NUM_SLOTS"
        show "slots1 ! c = (if j \<le> c \<and> bit sid c then 0 else slots ! c)"
        proof (cases "c = j")
          case True
          with v c b Suc.prems(1) show ?thesis by simp
        next
          case False
          with v c show ?thesis by (auto simp: nth_list_update)
        qed
      qed
      have "release_slots i j cu_k sid slots = Some slots1"
        using True j31 jN b r test_bit[OF j31, of sid]
        by (subst release_slots.simps) (simp del: push_bit_of_1)
      with l v1 show ?thesis by blast
    next
      case nb: False
      have i1: "i = int (card {b. b < j + 1 \<and> bit sid b})"
        using Suc.prems(2) nb by (simp add: bits_below_Suc)
      from Suc.hyps(1)[OF n Suc.prems(1) i1] obtain slots1 where
        r: "release_slots i (j + 1) cu_k sid slots = Some slots1"
        and l: "length slots1 = NUM_SLOTS"
        and v: "\<forall>b<NUM_SLOTS. slots1 ! b = (if j + 1 \<le> b \<and> bit sid b then 0 else slots ! b)"
        by blast
      have v1: "\<forall>b<NUM_SLOTS. slots1 ! b = (if j \<le> b \<and> bit sid b then 0 else slots ! b)"
      proof (intro allI impI)
        fix c assume c: "c < NUM_SLOTS"
        show "slots1 ! c = (if j \<le> c \<and> bit sid c then 0 else slots ! c)"
        proof (cases "c = j")
          case True
          with v c nb show ?thesis by simp
        next
          case False
          with v c show ?thesis by auto
        qed
      qed
      have "release_slots i j cu_k sid slots = Some slots1"
        using True j31 jN nb r test_bit[OF j31, of sid]
        by (subst release_slots.simps) (simp del: push_bit_of_1)
      with l v1 show ?thesis by blast
    qed
  qed
qed

lemma release_slots_spec:
  assumes "length slots = NUM_SLOTS" "\<forall>b. bit sid b \<longrightarrow> b < NUM_SLOTS"
    "popcount sid = nat cu_k" "0 \<le> cu_k"
  shows "\<exists>slots1. release_slots 0 0 cu_k sid slots = Some slots1 \<and> length slots1 = NUM_SLOTS
      \<and> (\<forall>b<NUM_SLOTS. slots1 ! b = (if bit sid b then 0 else slots ! b))"
proof -
  have c: "int (card {b. bit sid b}) = cu_k"
    using assms(3,4) unfolding popcount_card by simp
  have z: "(0::int) = int (card {b. b < 0 \<and> bit sid b})" by simp
  from release_slots_run[OF assms(1,2) c assms(1) z] show ?thesis by simp
qed

lemma zeros_after_release:
  assumes "length (slots :: int list) = NUM_SLOTS" "length (slots1 :: int list) = NUM_SLOTS"
    "\<forall>b<NUM_SLOTS. slots1 ! b = (if bit sid b then 0 else slots ! b)"
    "\<forall>b. bit (sid :: 32 word) b \<longrightarrow> b < NUM_SLOTS \<and> slots ! b \<noteq> 0"
  shows "int (length (filter (\<lambda>x. x = 0) slots1))
     = int (length (filter (\<lambda>x. x = 0) slots)) + int (popcount sid)"
proof -
  let ?Z = "{i. i < NUM_SLOTS \<and> slots ! i = 0}"
  let ?B = "{b. bit sid b}"
  have "{i. i < NUM_SLOTS \<and> slots1 ! i = 0} = ?Z \<union> ?B"
    using assms(3,4) by auto
  moreover have "?Z \<inter> ?B = {}" using assms(4) by auto
  moreover have "finite ?Z" by simp
  ultimately have "card {i. i < NUM_SLOTS \<and> slots1 ! i = 0} = card ?Z + card ?B"
    using finite_bits[of sid] by (simp add: card_Un_disjoint)
  then show ?thesis
    using assms(1,2) by (simp add: zeros_card popcount_card)
qed

lemma zeros_after_select:
  assumes "length (slots :: int list) = NUM_SLOTS" "length (slots1 :: int list) = NUM_SLOTS"
    "\<forall>b<NUM_SLOTS. slots1 ! b = (if b \<in> F then 1 else slots ! b)"
    "\<forall>b\<in>F. b < NUM_SLOTS \<and> slots ! b = 0" "finite F"
  shows "int (length (filter (\<lambda>x. x = 0) slots1)) + int (card F)
     = int (length (filter (\<lambda>x. x = 0) slots))"
proof -
  let ?Z = "{i. i < NUM_SLOTS \<and> slots ! i = 0}"
  have e: "{i. i < NUM_SLOTS \<and> slots1 ! i = 0} = ?Z - F"
    using assms(3) by (auto split: if_splits)
  have s: "F \<subseteq> ?Z" using assms(4) by auto
  have "card (?Z - F) = card ?Z - card F"
    using s assms(5) by (simp add: card_Diff_subset)
  moreover have "card F \<le> card ?Z" using s by (simp add: card_mono)
  ultimately have "card (?Z - F) + card F = card ?Z" by simp
  then show ?thesis
    using assms(1,2) e by (simp add: zeros_card)
qed

subsection \<open>Slot conservation\<close>

lemma sum_list_map_update:
  "n < length xs \<Longrightarrow> (\<Sum>x\<leftarrow>xs[n := y]. f x) = (\<Sum>x\<leftarrow>xs. f x) - f (xs ! n) + (f y :: int)"
proof (induction xs arbitrary: n)
  case Nil
  then show ?case by simp
next
  case (Cons a xs)
  then show ?case by (cases n) auto
qed

lemma cu_where_append:
  "cu_where P (ws @ [w]) = cu_where P ws + (if P (fst w) then cu (snd w) else 0)"
  by (simp add: cu_where_def)

lemma cu_where_update:
  "n < length ws \<Longrightarrow> cu_where P (ws[n := w]) =
     cu_where P ws - (if P (fst (ws ! n)) then cu (snd (ws ! n)) else 0)
       + (if P (fst w) then cu (snd w) else 0)"
  unfolding cu_where_def by (rule sum_list_map_update)

lemma holds_at_append:
  "holds_at i (ws @ [w]) = holds_at i ws + (if fst w = Executing \<and> bit (slot_id (snd w)) i then 1 else 0)"
  by (simp add: holds_at_def)

lemma holds_at_update:
  "n < length ws \<Longrightarrow> holds_at i (ws[n := w]) =
     holds_at i ws - (if fst (ws ! n) = Executing \<and> bit (slot_id (snd (ws ! n))) i then 1 else 0)
       + (if fst w = Executing \<and> bit (slot_id (snd w)) i then 1 else 0)"
  unfolding holds_at_def by (rule sum_list_map_update)

lemma holds_at_nonneg: "0 \<le> holds_at i ws"
  unfolding holds_at_def by (rule sum_list_nonneg) auto

lemma cu_where_nonneg:
  "\<forall>w\<in>set ws. P (fst w) \<longrightarrow> 0 \<le> cu (snd w) \<Longrightarrow> 0 \<le> cu_where P ws"
  unfolding cu_where_def by (rule sum_list_nonneg) auto

lemma slot_inv_init:
  assumes "\<forall>k\<in>set (nodes gq). fresh k"
  shows "slot_inv (init_system gq k0 a0)"
  using assms
  by (simp add: slot_inv_def inv_table_def inv_records_def inv_account_def init_system_def
      occupancy_def held_cu_def returning_cu_def reserved_cu_def cu_where_def holds_at_def
      init_queue_def holds_fresh_def)

lemma monitor_step_inv: "slot_inv s \<Longrightarrow> monitor_step m s = Some s1 \<Longrightarrow> slot_inv s1"
  by (auto simp: monitor_step_def slot_inv_def)

lemma producer_step_inv:
  assumes "slot_inv s" "producer_step nk ok s = Some s1"
  shows "slot_inv s1"
proof (cases "producer s")
  case Notify
  with assms show ?thesis
    by (auto simp: producer_step_def slot_inv_def)
next
  case Admit
  show ?thesis
  proof (cases "admitted s < nk")
    case False
    with Admit assms show ?thesis by (simp add: producer_step_def)
  next
    case True
    show ?thesis
    proof (cases "nodes (kernel_generation_queue s)")
      case Nil
      with Admit True assms show ?thesis by (simp add: producer_step_def dequeue_def)
    next
      case (Cons k rest)
      with Admit True assms(2) have
        s1: "s1 = s\<lparr>kernel_generation_queue :=
                     (kernel_generation_queue s)\<lparr>nodes := rest,
                        size := size (kernel_generation_queue s) - 1\<rparr>,
                   kernel_execution_queue :=
                     (kernel_execution_queue s)\<lparr>nodes := nodes (kernel_execution_queue s) @ [k],
                        size := size (kernel_execution_queue s) + 1\<rparr>,
                   producer_aux := k,
                   producer := Notify\<rparr>"
        by (auto simp: producer_step_def dequeue_def enqueue_def split: if_splits)
      from assms(1) Cons show ?thesis
        unfolding s1 by (simp add: slot_inv_def inv_records_def)
    qed
  qed
qed

lemma scan_rest_facts:
  "scan_rest fs dup pre xs = Some (ys, t, zs) \<Longrightarrow>
     cu t \<le> fs \<and> t \<in> set xs \<and> set ys \<union> set zs \<subseteq> set pre \<union> set xs"
proof (induction xs arbitrary: pre)
  case Nil
  then show ?case by simp
next
  case (Cons a xs)
  show ?case
  proof (cases "fs < cu a \<or> dup (kernel_label a) = 1")
    case True
    with Cons.prems have "scan_rest fs dup (pre @ [a]) xs = Some (ys, t, zs)" by simp
    from Cons.IH[OF this] show ?thesis by auto
  next
    case False
    with Cons.prems show ?thesis by auto
  qed
qed

lemma dequeue_first_executable_kernel_facts:
  assumes "dequeue_first_executable_kernel q fs dup d = (r, q1, d1)"
  shows "(r < 0 \<longrightarrow> q1 = q \<and> d1 = d)
     \<and> (\<not> r < 0 \<longrightarrow> cu d1 \<le> fs \<and> d1 \<in> set (nodes q) \<and> set (nodes q1) \<subseteq> set (nodes q))"
proof (cases "nodes q")
  case Nil
  with assms show ?thesis by (auto simp: dequeue_first_executable_kernel_def)
next
  case (Cons a xs)
  show ?thesis
  proof (cases "cu a \<le> fs \<and> dup (kernel_label a) = 0")
    case True
    with Cons assms show ?thesis by (auto simp: dequeue_first_executable_kernel_def)
  next
    case False
    show ?thesis
    proof (cases "scan_rest fs dup [a] xs")
      case None
      with False Cons assms show ?thesis by (auto simp: dequeue_first_executable_kernel_def)
    next
      case (Some p)
      obtain ys t zs where p: "p = (ys, t, zs)" by (cases p) auto
      from scan_rest_facts[OF Some[unfolded p]] False Cons assms Some p show ?thesis
        by (auto simp: dequeue_first_executable_kernel_def) blast+
    qed
  qed
qed

lemma worker_in_set: "n < length ws \<Longrightarrow> ws ! n = (p, k) \<Longrightarrow> (p, k) \<in> set ws"
  by (metis nth_mem)

lemma records_update:
  assumes "inv_records ws pc kt en gn" "n < length ws" "ws ! n = (p, k)" "p \<noteq> Finished"
  shows "inv_records (ws[n := (p1, k)]) pc kt en gn"
proof -
  from assms(2,3) have m: "(p, k) \<in> set ws" by (rule worker_in_set)
  with assms(1,4) have wp: "well_placed k" by (auto simp: inv_records_def)
  have "set (ws[n := (p1, k)]) \<subseteq> insert (p1, k) (set ws)" by (rule set_update_subset_insert)
  with assms(1) wp show ?thesis by (auto simp: inv_records_def)
qed

lemma returning_nonneg:
  assumes "inv_records ws pc kt en gn"
  shows "0 \<le> returning_cu ws"
  unfolding returning_cu_def
proof (rule cu_where_nonneg, intro ballI impI)
  fix w assume "w \<in> set ws" "fst w = Slots_released \<or> fst w = Dup_released"
  with assms have "well_placed (snd w)" by (auto simp: inv_records_def)
  then show "0 \<le> cu (snd w)" by (simp add: well_placed_def)
qed

lemma worker_release_inv:
  assumes T: "inv_table slots ws pc kt" and R: "inv_records ws pc kt en gn"
    and A: "inv_account free ft ws pc kt"
    and n: "n < length ws" and w: "ws ! n = (Executing, k)"
  shows "\<exists>slots1. release_slots 0 0 (cu k) (slot_id k) slots = Some slots1
     \<and> (\<forall>b<NUM_SLOTS. slots1 ! b = (if bit (slot_id k) b then 0 else slots ! b))
     \<and> (\<forall>b. bit (slot_id k) b \<longrightarrow> b < NUM_SLOTS \<and> slots ! b = 1)
     \<and> popcount (slot_id k) = nat (cu k)
     \<and> inv_table slots1 (ws[n := (Slots_released, k)]) pc kt
     \<and> inv_records (ws[n := (Slots_released, k)]) pc kt en gn
     \<and> inv_account free ft (ws[n := (Slots_released, k)]) pc kt"
proof -
  let ?ws = "ws[n := (Slots_released, k)]"
  from n w have m: "(Executing, k) \<in> set ws" by (rule worker_in_set)
  with R have wp: "well_placed k" by (auto simp: inv_records_def)
  then have cu1: "1 \<le> cu k" and pc: "popcount (slot_id k) = nat (cu k)"
    and bN: "\<forall>b. bit (slot_id k) b \<longrightarrow> b < NUM_SLOTS"
    by (simp_all add: well_placed_def)
  from T have len: "length slots = NUM_SLOTS"
    and occ: "\<forall>i<NUM_SLOTS. slots ! i = occupancy ws pc kt i \<and> occupancy ws pc kt i \<le> 1"
    and zer: "int (length (filter (\<lambda>x. x = 0) slots)) + held_cu ws pc kt = int NUM_SLOTS"
    by (simp_all add: inv_table_def)
  from release_slots_spec[OF len bN pc] cu1 obtain slots1 where
    r: "release_slots 0 0 (cu k) (slot_id k) slots = Some slots1"
    and l1: "length slots1 = NUM_SLOTS"
    and v: "\<forall>b<NUM_SLOTS. slots1 ! b = (if bit (slot_id k) b then 0 else slots ! b)"
    by auto
  have occ1: "\<And>i. occupancy ?ws pc kt i = occupancy ws pc kt i - (if bit (slot_id k) i then 1 else 0)"
    using n w by (simp add: occupancy_def holds_at_update)
  have nonneg: "\<And>i. 0 \<le> occupancy ?ws pc kt i"
    using holds_at_nonneg[of _ ?ws] by (simp add: occupancy_def)
  have one: "\<forall>b. bit (slot_id k) b \<longrightarrow> b < NUM_SLOTS \<and> slots ! b = 1"
  proof (intro allI impI)
    fix b assume b: "bit (slot_id k) b"
    with bN have bl: "b < NUM_SLOTS" by simp
    from occ1[of b] nonneg[of b] b have "1 \<le> occupancy ws pc kt b" by simp
    with occ bl have "slots ! b = 1" by (metis order_antisym)
    with bl show "b < NUM_SLOTS \<and> slots ! b = 1" by simp
  qed
  then have nz: "\<forall>b. bit (slot_id k) b \<longrightarrow> b < NUM_SLOTS \<and> slots ! b \<noteq> 0" by simp
  have z1: "int (length (filter (\<lambda>x. x = 0) slots1))
     = int (length (filter (\<lambda>x. x = 0) slots)) + int (popcount (slot_id k))"
    by (rule zeros_after_release[OF len l1 v nz])
  have h1: "held_cu ?ws pc kt = held_cu ws pc kt - cu k"
    using n w by (simp add: held_cu_def cu_where_update)
  have r1: "returning_cu ?ws = returning_cu ws + cu k"
    using n w by (simp add: returning_cu_def cu_where_update)
  have o1: "\<forall>i<NUM_SLOTS. slots1 ! i = occupancy ?ws pc kt i \<and> occupancy ?ws pc kt i \<le> 1"
  proof (intro allI impI)
    fix i assume i: "i < NUM_SLOTS"
    show "slots1 ! i = occupancy ?ws pc kt i \<and> occupancy ?ws pc kt i \<le> 1"
    proof (cases "bit (slot_id k) i")
      case True
      with one have "slots ! i = 1" by simp
      with occ i have "occupancy ws pc kt i = 1" by simp
      with True v i occ1[of i] show ?thesis by simp
    next
      case False
      with v i occ occ1[of i] show ?thesis by simp
    qed
  qed
  have T1: "inv_table slots1 ?ws pc kt"
    unfolding inv_table_def using l1 o1 z1 h1 zer pc cu1 by simp
  have R1: "inv_records ?ws pc kt en gn"
    by (rule records_update[OF R n w]) simp
  have A1: "inv_account free ft ?ws pc kt"
    using A h1 r1 by (simp add: inv_account_def)
  from r v one pc T1 R1 A1 show ?thesis by blast
qed

lemma worker_dup_inv:
  assumes T: "inv_table slots ws pc kt" and R: "inv_records ws pc kt en gn"
    and A: "inv_account free ft ws pc kt"
    and n: "n < length ws" and w: "ws ! n = (Slots_released, k)"
  shows "inv_table slots (ws[n := (Dup_released, k)]) pc kt
     \<and> inv_records (ws[n := (Dup_released, k)]) pc kt en gn
     \<and> inv_account free ft (ws[n := (Dup_released, k)]) pc kt"
proof -
  let ?ws = "ws[n := (Dup_released, k)]"
  have occ1: "\<And>i. occupancy ?ws pc kt i = occupancy ws pc kt i"
    using n w by (simp add: occupancy_def holds_at_update)
  have h1: "held_cu ?ws pc kt = held_cu ws pc kt"
    using n w by (simp add: held_cu_def cu_where_update)
  have r1: "returning_cu ?ws = returning_cu ws"
    using n w by (simp add: returning_cu_def cu_where_update)
  have T1: "inv_table slots ?ws pc kt"
    using T unfolding inv_table_def occ1 h1 .
  have R1: "inv_records ?ws pc kt en gn"
    by (rule records_update[OF R n w]) simp
  have A1: "inv_account free ft ?ws pc kt"
    using A unfolding inv_account_def h1 r1 .
  from T1 R1 A1 show ?thesis by blast
qed

lemma worker_finish_inv:
  assumes T: "inv_table slots ws pc kt" and R: "inv_records ws pc kt en gn"
    and A: "inv_account free ft ws pc kt"
    and n: "n < length ws" and w: "ws ! n = (Dup_released, k)"
  shows "inv_table slots (ws[n := (Finished, k)]) pc kt
     \<and> inv_records (ws[n := (Finished, k)]) pc kt en gn
     \<and> inv_account (free + cu k) ft (ws[n := (Finished, k)]) pc kt"
proof -
  let ?ws = "ws[n := (Finished, k)]"
  from n w have m: "(Dup_released, k) \<in> set ws" by (rule worker_in_set)
  with R have wp: "well_placed k" by (auto simp: inv_records_def)
  then have cu1: "1 \<le> cu k" by (simp add: well_placed_def)
  have occ1: "\<And>i. occupancy ?ws pc kt i = occupancy ws pc kt i"
    using n w by (simp add: occupancy_def holds_at_update)
  have h1: "held_cu ?ws pc kt = held_cu ws pc kt"
    using n w by (simp add: held_cu_def cu_where_update)
  have r1: "returning_cu ?ws = returning_cu ws - cu k"
    using n w by (simp add: returning_cu_def cu_where_update)
  have T1: "inv_table slots ?ws pc kt"
    using T unfolding inv_table_def occ1 h1 .
  have R1: "inv_records ?ws pc kt en gn"
    by (rule records_update[OF R n w]) simp
  have A1: "inv_account (free + cu k) ft ?ws pc kt"
    using A cu1 unfolding inv_account_def h1 r1 by auto
  from T1 R1 A1 show ?thesis by blast
qed

lemma sched_select_inv:
  assumes T: "inv_table slots ws Select_slots kt" and R: "inv_records ws Select_slots kt en gn"
    and A: "inv_account free ft ws Select_slots kt"
    and sel: "select_slots 0 0 (cu kt) slots (slot_id kt) = (slots1, sid1)"
  shows "inv_table slots1 ws Dispatch (kt\<lparr>slot_id := sid1\<rparr>)
     \<and> inv_records ws Dispatch (kt\<lparr>slot_id := sid1\<rparr>) en gn
     \<and> inv_account free ft ws Dispatch (kt\<lparr>slot_id := sid1\<rparr>)
     \<and> popcount sid1 = nat (cu kt)
     \<and> (\<forall>i<NUM_SLOTS. slots1 ! i = (if bit sid1 i then 1 else slots ! i))
     \<and> (\<forall>i. bit sid1 i \<longrightarrow> i < NUM_SLOTS \<and> slots ! i = 0)
     \<and> (\<forall>i. bit sid1 i = (i \<in> set (lowest_free (nat (cu kt)) slots)))"
proof -
  let ?F = "lowest_free (nat (cu kt)) slots"
  let ?kt = "kt\<lparr>slot_id := sid1\<rparr>"
  from R have fr: "fresh kt" by (simp add: inv_records_def holds_fresh_def)
  then have cu1: "1 \<le> cu kt" and s0: "slot_id kt = 0" by (simp_all add: fresh_def)
  from T have len: "length slots = NUM_SLOTS"
    and occ: "\<forall>i<NUM_SLOTS. slots ! i = holds_at i ws \<and> holds_at i ws \<le> 1"
    and zer: "int (length (filter (\<lambda>x. x = 0) slots)) + cu_where (\<lambda>p. p = Executing) ws = int NUM_SLOTS"
    by (simp_all add: inv_table_def occupancy_def held_cu_def)
  from A have acc: "free + cu_where (\<lambda>p. p = Executing) ws + returning_cu ws + cu kt = int NUM_SLOTS"
    and f0: "0 \<le> free"
    by (simp_all add: inv_account_def held_cu_def reserved_cu_def)
  from returning_nonneg[OF R] have r0: "0 \<le> returning_cu ws" .
  from zer acc f0 r0 have enough: "cu kt \<le> int (length (filter (\<lambda>x. x = 0) slots))" by linarith
  from select_slots_effect[OF len cu1 enough, of "slot_id kt"] sel s0
  have lF: "length ?F = nat (cu kt)" and l1: "length slots1 = NUM_SLOTS"
    and v: "\<forall>i<NUM_SLOTS. slots1 ! i = (if i \<in> set ?F then 1 else slots ! i)"
    and b: "\<forall>i. bit sid1 i = (i \<in> set ?F)"
    and p: "popcount sid1 = nat (cu kt)"
    by simp_all
  have n: "int (nat (cu kt)) \<le> int (length (filter (\<lambda>x. x = 0) slots))" using enough cu1 by simp
  note P = lowest_free_props[OF len n]
  have cF: "int (card (set ?F)) = cu kt"
    using P(2) lF cu1 by (simp add: distinct_card)
  have z1: "int (length (filter (\<lambda>x. x = 0) slots1)) + int (card (set ?F))
     = int (length (filter (\<lambda>x. x = 0) slots))"
    by (rule zeros_after_select[OF len l1 v P(4)]) simp
  have free0: "\<forall>i. bit sid1 i \<longrightarrow> i < NUM_SLOTS \<and> slots ! i = 0"
    using b P(4) by simp
  have vb: "\<forall>i<NUM_SLOTS. slots1 ! i = (if bit sid1 i then 1 else slots ! i)"
    using v b by simp
  have o1: "\<forall>i<NUM_SLOTS. slots1 ! i = occupancy ws Dispatch ?kt i \<and> occupancy ws Dispatch ?kt i \<le> 1"
  proof (intro allI impI)
    fix i assume i: "i < NUM_SLOTS"
    show "slots1 ! i = occupancy ws Dispatch ?kt i \<and> occupancy ws Dispatch ?kt i \<le> 1"
    proof (cases "bit sid1 i")
      case True
      with free0 have "slots ! i = 0" by simp
      with occ i have "holds_at i ws = 0" by simp
      with True vb i show ?thesis by (simp add: occupancy_def)
    next
      case False
      with vb i occ show ?thesis by (simp add: occupancy_def)
    qed
  qed
  have T1: "inv_table slots1 ws Dispatch ?kt"
    unfolding inv_table_def using l1 o1 z1 zer cF by (simp add: held_cu_def)
  have wp: "well_placed ?kt"
    using cu1 p free0 by (simp add: well_placed_def)
  have R1: "inv_records ws Dispatch ?kt en gn"
    using R wp by (simp add: inv_records_def holds_fresh_def)
  have A1: "inv_account free ft ws Dispatch ?kt"
    using acc f0 by (simp add: inv_account_def held_cu_def reserved_cu_def)
  from T1 R1 A1 p vb free0 b show ?thesis by blast
qed

lemma sched_dispatch_inv:
  assumes T: "inv_table slots ws Dispatch kt" and R: "inv_records ws Dispatch kt en gn"
    and A: "inv_account free ft ws Dispatch kt"
  shows "inv_table slots (ws @ [(Executing, kt)]) Serve kt
     \<and> inv_records (ws @ [(Executing, kt)]) Serve kt en gn
     \<and> inv_account free ft (ws @ [(Executing, kt)]) Serve kt"
proof -
  have T1: "inv_table slots (ws @ [(Executing, kt)]) Serve kt"
    using T by (simp add: inv_table_def occupancy_def held_cu_def holds_at_append cu_where_append)
  have R1: "inv_records (ws @ [(Executing, kt)]) Serve kt en gn"
    using R by (simp add: inv_records_def holds_fresh_def)
  have A1: "inv_account free ft (ws @ [(Executing, kt)]) Serve kt"
    using A by (simp add: inv_account_def held_cu_def reserved_cu_def returning_cu_def cu_where_append)
  from T1 R1 A1 show ?thesis by blast
qed

lemma worker_step_inv:
  assumes "slot_inv s" "worker_step n s = Some s1"
  shows "slot_inv s1"
proof (cases "length (workers s) \<le> n")
  case True
  with assms show ?thesis by (simp add: worker_step_def)
next
  case False
  then have n: "n < length (workers s)" by simp
  obtain p k where w: "workers s ! n = (p, k)" by (cases "workers s ! n") auto
  from assms(1) have T: "inv_table (slots_in_use s) (workers s) (sched s) (kernel_tmp s)"
    and R: "inv_records (workers s) (sched s) (kernel_tmp s)
           (nodes (kernel_execution_queue s)) (nodes (kernel_generation_queue s))"
    and A: "inv_account (free_slots_variable s) (free_slots_tmp s) (workers s) (sched s) (kernel_tmp s)"
    by (simp_all add: slot_inv_def)
  show ?thesis
  proof (cases p)
    case Executing
    from worker_release_inv[OF T R A n w[unfolded Executing]] obtain slots1 where
      r: "release_slots 0 0 (cu k) (slot_id k) (slots_in_use s) = Some slots1"
      and I: "inv_table slots1 ((workers s)[n := (Slots_released, k)]) (sched s) (kernel_tmp s)"
        "inv_records ((workers s)[n := (Slots_released, k)]) (sched s) (kernel_tmp s)
           (nodes (kernel_execution_queue s)) (nodes (kernel_generation_queue s))"
        "inv_account (free_slots_variable s) (free_slots_tmp s)
           ((workers s)[n := (Slots_released, k)]) (sched s) (kernel_tmp s)"
      by blast
    from assms(2) n w Executing r
    have "s1 = s\<lparr>slots_in_use := slots1, workers := (workers s)[n := (Slots_released, k)]\<rparr>"
      by (simp add: worker_step_def)
    with I show ?thesis by (simp add: slot_inv_def)
  next
    case Slots_released
    from assms(2) n w Slots_released
    have "s1 = s\<lparr>duplicated_kernel_variable :=
                     (duplicated_kernel_variable s)
                       (kernel_label k := duplicated_kernel_variable s (kernel_label k) - 1),
                   workers := (workers s)[n := (Dup_released, k)]\<rparr>"
      by (simp add: worker_step_def)
    with worker_dup_inv[OF T R A n w[unfolded Slots_released]] show ?thesis
      by (simp add: slot_inv_def)
  next
    case Dup_released
    from assms(2) n w Dup_released
    have "s1 = s\<lparr>free_slots_variable := free_slots_variable s + cu k,
                   kernels_are_executable_variable := 1,
                   workers := (workers s)[n := (Finished, k)]\<rparr>"
      by (simp add: worker_step_def)
    with worker_finish_inv[OF T R A n w[unfolded Dup_released]] show ?thesis
      by (simp add: slot_inv_def)
  next
    case Finished
    with assms n w show ?thesis by (simp add: worker_step_def)
  qed
qed

lemmas inv_unfold = inv_table_def inv_records_def inv_account_def occupancy_def held_cu_def
  reserved_cu_def holds_fresh_def

lemma sched_step_inv:
  assumes "slot_inv s" "sched_step nk ok s = Some s1"
  shows "slot_inv s1"
proof -
  from assms(1) have T: "inv_table (slots_in_use s) (workers s) (sched s) (kernel_tmp s)"
    and R: "inv_records (workers s) (sched s) (kernel_tmp s)
           (nodes (kernel_execution_queue s)) (nodes (kernel_generation_queue s))"
    and A: "inv_account (free_slots_variable s) (free_slots_tmp s) (workers s) (sched s) (kernel_tmp s)"
    by (simp_all add: slot_inv_def)
  show ?thesis
  proof (cases "sched s")
    case Wait_service
    show ?thesis
    proof (cases "kernels_count s < nk")
      case False
      with assms(2) Wait_service
      have "s1 = s\<lparr>kernel_execution_queue := clean_queue (kernel_execution_queue s),
                        sched := Workload_done\<rparr>"
        by (simp add: sched_step_def)
      with T R A Wait_service show ?thesis
        by (simp add: slot_inv_def inv_unfold clean_queue_def)
    next
      case True
      show ?thesis
      proof (cases "must_wait s")
        case mw: True
        with assms True Wait_service show ?thesis by (simp add: sched_step_def)
      next
        case False
        with assms(2) True Wait_service
        have "s1 = s\<lparr>free_slots_tmp := free_slots_variable s,
                       kernels_are_executable_variable := 0,
                       sched := Get_dup\<rparr>"
          by (simp add: sched_step_def)
        with T R A Wait_service show ?thesis
          by (simp add: slot_inv_def inv_unfold)
      qed
    qed
  next
    case Get_dup
    with assms(2)
    have "s1 = s\<lparr>duplicated_kernels_tmp := duplicated_kernel_variable s, sched := Scan_queue\<rparr>"
      by (simp add: sched_step_def)
    with T R A Get_dup show ?thesis
      by (simp add: slot_inv_def inv_unfold)
  next
    case Scan_queue
    obtain r q1 d1 where d: "dequeue_first_executable_kernel (kernel_execution_queue s)
        (free_slots_tmp s) (duplicated_kernels_tmp s) (kernel_tmp s) = (r, q1, d1)"
      by (metis prod_cases3)
    note F = dequeue_first_executable_kernel_facts[OF d]
    show ?thesis
    proof (cases "r < 0")
      case True
      with assms(2) Scan_queue d
      have "s1 = s\<lparr>kernel_execution_queue := q1, kernel_tmp := d1, sched := Wait_service\<rparr>"
        by (simp add: sched_step_def)
      with T R A Scan_queue F True show ?thesis
        by (simp add: slot_inv_def inv_unfold)
    next
      case False
      with assms(2) Scan_queue d
      have s1: "s1 = s\<lparr>kernel_execution_queue := q1, kernel_tmp := d1, sched := Set_executable\<rparr>"
        by (simp add: sched_step_def)
      from F False have c: "cu d1 \<le> free_slots_tmp s" and m: "d1 \<in> set (nodes (kernel_execution_queue s))"
        and sub: "set (nodes q1) \<subseteq> set (nodes (kernel_execution_queue s))" by simp_all
      from R m have fr: "fresh d1" by (simp add: inv_records_def)
      from R sub have frq: "\<forall>k\<in>set (nodes q1). fresh k" by (auto simp: inv_records_def)
      from A Scan_queue have le: "free_slots_tmp s \<le> free_slots_variable s"
        by (simp add: inv_account_def)
      from T R A Scan_queue fr frq c le show ?thesis
        unfolding s1 by (simp add: slot_inv_def inv_unfold)
    qed
  next
    case Set_executable
    with assms(2)
    have "s1 = s\<lparr>kernels_are_executable_variable := 1, sched := Mark_duplicated\<rparr>"
      by (simp add: sched_step_def)
    with T R A Set_executable show ?thesis
      by (simp add: slot_inv_def inv_unfold)
  next
    case Mark_duplicated
    with assms(2)
    have "s1 = s\<lparr>duplicated_kernel_variable :=
                     (duplicated_kernel_variable s)
                       (kernel_label (kernel_tmp s) :=
                          duplicated_kernel_variable s (kernel_label (kernel_tmp s)) + 1),
                   kernel_tmp := (kernel_tmp s)\<lparr>temp_id := kernels_count s\<rparr>,
                   sched := Reserve_slots\<rparr>"
      by (simp add: sched_step_def)
    with T R A Mark_duplicated show ?thesis
      by (simp add: slot_inv_def inv_unfold fresh_def)
  next
    case Reserve_slots
    with assms(2)
    have "s1 = s\<lparr>free_slots_variable := free_slots_variable s - cu (kernel_tmp s),
                   sched := Select_slots\<rparr>"
      by (simp add: sched_step_def)
    with T R A Reserve_slots show ?thesis
      by (simp add: slot_inv_def inv_unfold)
  next
    case Select_slots
    obtain slots1 sid1 where sel: "select_slots 0 0 (cu (kernel_tmp s)) (slots_in_use s)
        (slot_id (kernel_tmp s)) = (slots1, sid1)" by (metis surj_pair)
    with assms(2) Select_slots
    have s1: "s1 = s\<lparr>slots_in_use := slots1,
                        kernel_tmp := (kernel_tmp s)\<lparr>slot_id := sid1\<rparr>,
                        sched := Dispatch\<rparr>"
      by (simp add: sched_step_def)
    from sched_select_inv[OF T[unfolded Select_slots] R[unfolded Select_slots]
        A[unfolded Select_slots] sel]
    show ?thesis unfolding s1 by (simp add: slot_inv_def)
  next
    case Dispatch
    with assms(2) have ok: "ok" and
      s1: "s1 = s\<lparr>kernel_output_queue :=
                     (kernel_output_queue s)\<lparr>nodes := nodes (kernel_output_queue s) @ [kernel_tmp s],
                        size := size (kernel_output_queue s) + 1\<rparr>,
                   workers := workers s @ [(Executing, kernel_tmp s)],
                   sched := Serve\<rparr>"
      by (auto simp: sched_step_def enqueue_and_modify_def split: if_splits)
    from sched_dispatch_inv[OF T[unfolded Dispatch] R[unfolded Dispatch] A[unfolded Dispatch]]
    show ?thesis unfolding s1 by (simp add: slot_inv_def)
  next
    case Serve
    with assms(2)
    have "s1 = s\<lparr>kernels_to_serve_variable := kernels_to_serve_variable s - 1,
                   kernels_count := kernels_count s + 1,
                   sched := Wait_service\<rparr>"
      by (simp add: sched_step_def)
    with T R A Serve show ?thesis
      by (simp add: slot_inv_def inv_unfold)
  next
    case Workload_done
    with assms show ?thesis by (simp add: sched_step_def)
  qed
qed

lemma exec_inv: "slot_inv s \<Longrightarrow> exec nk a s = Some s1 \<Longrightarrow> slot_inv s1"
  by (cases a) (auto intro: sched_step_inv worker_step_inv producer_step_inv monitor_step_inv)

lemma run_inv: "slot_inv s \<Longrightarrow> run nk acts s = Some s1 \<Longrightarrow> slot_inv s1"
proof (induction acts arbitrary: s)
  case Nil
  then show ?case by simp
next
  case (Cons a acts)
  then obtain s2 where e: "exec nk a s = Some s2" and r: "run nk acts s2 = Some s1"
    by (auto split: option.splits)
  from exec_inv[OF Cons.prems(1) e] have "slot_inv s2" .
  from Cons.IH[OF this r] show ?case .
qed

lemma aux_kernel_data_fresh: "fresh (aux_kernel_data w t0 tm i)"
  using aux_kernel_data_fields(3,4)[of w t0 tm i] by (auto simp: fresh_def)

lemma fill_generation_queue_fresh:
  "fill_generation_queue nk w t0 i (timer, q) = Some (tm, gq) \<Longrightarrow>
   \<forall>k\<in>set (nodes q). fresh k \<Longrightarrow> \<forall>k\<in>set (nodes gq). fresh k"
proof (induction "nk - i" arbitrary: i timer q)
  case 0
  then have "\<not> i < nk" by simp
  with 0 show ?case by (subst (asm) fill_generation_queue.simps) simp
next
  case (Suc n)
  then have lt: "i < nk" and n: "n = nk - (i + 1)" by simp_all
  let ?d = "aux_kernel_data w t0 timer i"
  let ?q1 = "q\<lparr>nodes := nodes q @ [?d], size := size q + 1\<rparr>"
  from Suc.prems(1) lt have
    r: "fill_generation_queue nk w t0 (i + 1) (commanded_arrival_time ?d, ?q1) = Some (tm, gq)"
    by (subst (asm) fill_generation_queue.simps)
       (simp add: enqueue_def Let_def split: if_splits)
  have "\<forall>k\<in>set (nodes ?q1). fresh k"
    using Suc.prems(2) aux_kernel_data_fresh by simp
  from Suc.hyps(1)[OF n r this] show ?case .
qed

lemma live_workers_bits:
  "\<forall>w\<in>set ws. fst w \<noteq> Finished \<longrightarrow> well_placed (snd w) \<Longrightarrow>
   (\<Sum>k\<leftarrow>map snd (filter (\<lambda>w. fst w \<noteq> Finished) ws). int (popcount (slot_id k)))
     = cu_where (\<lambda>p. p = Executing) ws + cu_where (\<lambda>p. p = Slots_released \<or> p = Dup_released) ws"
proof (induction ws)
  case Nil
  then show ?case by (simp add: cu_where_def)
next
  case (Cons a ws)
  then have IH: "(\<Sum>k\<leftarrow>map snd (filter (\<lambda>w. fst w \<noteq> Finished) ws). int (popcount (slot_id k)))
     = cu_where (\<lambda>p. p = Executing) ws + cu_where (\<lambda>p. p = Slots_released \<or> p = Dup_released) ws"
    by simp
  have c: "\<And>P. cu_where P (a # ws) = (if P (fst a) then cu (snd a) else 0) + cu_where P ws"
    by (simp add: cu_where_def)
  show ?case
  proof (cases "fst a = Finished")
    case True
    with IH show ?thesis by (simp add: c)
  next
    case False
    with Cons.prems have "well_placed (snd a)" by simp
    then have "int (popcount (slot_id (snd a))) = cu (snd a)" by (simp add: well_placed_def)
    with False IH show ?thesis by (cases "fst a") (simp_all add: c)
  qed
qed

lemma live_mask_bits_eq:
  assumes "slot_inv s"
  shows "live_mask_bits s = held_cu (workers s) (sched s) (kernel_tmp s) + returning_cu (workers s)"
proof -
  from assms have R: "inv_records (workers s) (sched s) (kernel_tmp s)
           (nodes (kernel_execution_queue s)) (nodes (kernel_generation_queue s))"
    by (simp add: slot_inv_def)
  then have W: "\<forall>w\<in>set (workers s). fst w \<noteq> Finished \<longrightarrow> well_placed (snd w)"
    and D: "sched s = Dispatch \<longrightarrow> well_placed (kernel_tmp s)"
    by (simp_all add: inv_records_def)
  from D have d: "sched s = Dispatch \<longrightarrow> int (popcount (slot_id (kernel_tmp s))) = cu (kernel_tmp s)"
    by (auto simp: well_placed_def)
  show ?thesis
    using live_workers_bits[OF W] d
    by (simp add: live_mask_bits_def live_def held_cu_def returning_cu_def)
qed

lemma reachable_inv:
  assumes "fill_generation_queue n w t0 0 (t0, init_queue) = Some (tm, gq)"
    and "run nk acts (init_system gq k0 a0) = Some s"
  shows "slot_inv s"
proof -
  have "\<forall>k\<in>set (nodes init_queue). fresh k" by (simp add: init_queue_def)
  from fill_generation_queue_fresh[OF assms(1) this] have "\<forall>k\<in>set (nodes gq). fresh k" .
  from run_inv[OF slot_inv_init[OF this] assms(2)] show ?thesis .
qed

text \<open>
  Claim C4.  In every state reached by any interleaving of the steps of the producer, the
  scheduler, the workers and the monitor, started from the initial values with the
  records the filling loop built:
  the bits set in the slot masks of the live records, plus \<^verbatim>\<open>free_slots_variable\<close>,
  plus the width the scheduler has already subtracted for a record whose slots it has not
  selected yet, is \<^verbatim>\<open>NUM_SLOTS\<close>; so the bits of the live records plus
  \<^verbatim>\<open>free_slots_variable\<close> is \<^verbatim>\<open>NUM_SLOTS\<close> at every point that is not inside a
  dispatch, between the decrement and the selection of the slots.  The dispatch of a
  record of width \<open>cu\<close> subtracts \<open>cu\<close> from \<^verbatim>\<open>free_slots_variable\<close> and then
  sets exactly \<open>cu\<close> bits, on slots that were free; the completion succeeds, clears
  exactly the slots of the record's \<open>cu\<close> bits, which were in use, and then adds
  \<open>cu\<close> to \<^verbatim>\<open>free_slots_variable\<close>.
\<close>

theorem slot_conservation:
  assumes "fill_generation_queue n w t0 0 (t0, init_queue) = Some (tm, gq)"
    and "run nk acts (init_system gq k0 a0) = Some s"
  shows "live_mask_bits s + free_slots_variable s + reserved_cu (sched s) (kernel_tmp s) = int NUM_SLOTS
   \<and> (sched s \<noteq> Select_slots \<longrightarrow> live_mask_bits s + free_slots_variable s = int NUM_SLOTS)
   \<and> (sched s = Reserve_slots \<longrightarrow>
        (\<exists>s1. sched_step nk ok s = Some s1
           \<and> free_slots_variable s1 = free_slots_variable s - cu (kernel_tmp s)))
   \<and> (sched s = Select_slots \<longrightarrow>
        (\<exists>s1. sched_step nk ok s = Some s1
           \<and> popcount (slot_id (kernel_tmp s1)) = nat (cu (kernel_tmp s))
           \<and> (\<forall>i<NUM_SLOTS. slots_in_use s1 ! i =
                 (if bit (slot_id (kernel_tmp s1)) i then 1 else slots_in_use s ! i))
           \<and> (\<forall>i. bit (slot_id (kernel_tmp s1)) i \<longrightarrow> i < NUM_SLOTS \<and> slots_in_use s ! i = 0)))
   \<and> (\<forall>m k. m < length (workers s) \<and> workers s ! m = (Executing, k) \<longrightarrow>
        (\<exists>s1. worker_step m s = Some s1
           \<and> popcount (slot_id k) = nat (cu k)
           \<and> (\<forall>i. bit (slot_id k) i \<longrightarrow> i < NUM_SLOTS \<and> slots_in_use s ! i = 1)
           \<and> (\<forall>i<NUM_SLOTS. slots_in_use s1 ! i =
                 (if bit (slot_id k) i then 0 else slots_in_use s ! i))))
   \<and> (\<forall>m k. m < length (workers s) \<and> workers s ! m = (Dup_released, k) \<longrightarrow>
        (\<exists>s1. worker_step m s = Some s1
           \<and> free_slots_variable s1 = free_slots_variable s + cu k))"
proof -
  from reachable_inv[OF assms] have I: "slot_inv s" .
  then have T: "inv_table (slots_in_use s) (workers s) (sched s) (kernel_tmp s)"
    and R: "inv_records (workers s) (sched s) (kernel_tmp s)
           (nodes (kernel_execution_queue s)) (nodes (kernel_generation_queue s))"
    and A: "inv_account (free_slots_variable s) (free_slots_tmp s) (workers s) (sched s) (kernel_tmp s)"
    by (simp_all add: slot_inv_def)
  have c1: "live_mask_bits s + free_slots_variable s + reserved_cu (sched s) (kernel_tmp s)
      = int NUM_SLOTS"
    using A unfolding live_mask_bits_eq[OF I] by (simp add: inv_account_def)
  then have c2: "sched s \<noteq> Select_slots \<longrightarrow> live_mask_bits s + free_slots_variable s = int NUM_SLOTS"
    by (auto simp: reserved_cu_def)
  have c3: "sched s = Reserve_slots \<longrightarrow>
        (\<exists>s1. sched_step nk ok s = Some s1
           \<and> free_slots_variable s1 = free_slots_variable s - cu (kernel_tmp s))"
    by (simp add: sched_step_def)
  have c4: "sched s = Select_slots \<longrightarrow>
        (\<exists>s1. sched_step nk ok s = Some s1
           \<and> popcount (slot_id (kernel_tmp s1)) = nat (cu (kernel_tmp s))
           \<and> (\<forall>i<NUM_SLOTS. slots_in_use s1 ! i =
                 (if bit (slot_id (kernel_tmp s1)) i then 1 else slots_in_use s ! i))
           \<and> (\<forall>i. bit (slot_id (kernel_tmp s1)) i \<longrightarrow> i < NUM_SLOTS \<and> slots_in_use s ! i = 0))"
  proof
    assume pc: "sched s = Select_slots"
    obtain slots1 sid1 where sel: "select_slots 0 0 (cu (kernel_tmp s)) (slots_in_use s)
        (slot_id (kernel_tmp s)) = (slots1, sid1)" by (metis surj_pair)
    from sched_select_inv[OF T[unfolded pc] R[unfolded pc] A[unfolded pc] sel]
    have "popcount sid1 = nat (cu (kernel_tmp s))"
      "\<forall>i<NUM_SLOTS. slots1 ! i = (if bit sid1 i then 1 else slots_in_use s ! i)"
      "\<forall>i. bit sid1 i \<longrightarrow> i < NUM_SLOTS \<and> slots_in_use s ! i = 0"
      by simp_all
    with pc sel show "\<exists>s1. sched_step nk ok s = Some s1
           \<and> popcount (slot_id (kernel_tmp s1)) = nat (cu (kernel_tmp s))
           \<and> (\<forall>i<NUM_SLOTS. slots_in_use s1 ! i =
                 (if bit (slot_id (kernel_tmp s1)) i then 1 else slots_in_use s ! i))
           \<and> (\<forall>i. bit (slot_id (kernel_tmp s1)) i \<longrightarrow> i < NUM_SLOTS \<and> slots_in_use s ! i = 0)"
      by (simp add: sched_step_def)
  qed
  have c5: "\<forall>m k. m < length (workers s) \<and> workers s ! m = (Executing, k) \<longrightarrow>
        (\<exists>s1. worker_step m s = Some s1
           \<and> popcount (slot_id k) = nat (cu k)
           \<and> (\<forall>i. bit (slot_id k) i \<longrightarrow> i < NUM_SLOTS \<and> slots_in_use s ! i = 1)
           \<and> (\<forall>i<NUM_SLOTS. slots_in_use s1 ! i =
                 (if bit (slot_id k) i then 0 else slots_in_use s ! i)))"
  proof (intro allI impI, elim conjE)
    fix m k assume m: "m < length (workers s)" and w: "workers s ! m = (Executing, k)"
    from worker_release_inv[OF T R A m w] obtain slots1 where
      r: "release_slots 0 0 (cu k) (slot_id k) (slots_in_use s) = Some slots1"
      and v: "\<forall>b<NUM_SLOTS. slots1 ! b = (if bit (slot_id k) b then 0 else slots_in_use s ! b)"
      and o: "\<forall>b. bit (slot_id k) b \<longrightarrow> b < NUM_SLOTS \<and> slots_in_use s ! b = 1"
      and p: "popcount (slot_id k) = nat (cu k)"
      by blast
    from m w r v o p show "\<exists>s1. worker_step m s = Some s1
           \<and> popcount (slot_id k) = nat (cu k)
           \<and> (\<forall>i. bit (slot_id k) i \<longrightarrow> i < NUM_SLOTS \<and> slots_in_use s ! i = 1)
           \<and> (\<forall>i<NUM_SLOTS. slots_in_use s1 ! i =
                 (if bit (slot_id k) i then 0 else slots_in_use s ! i))"
      by (simp add: worker_step_def)
  qed
  have c6: "\<forall>m k. m < length (workers s) \<and> workers s ! m = (Dup_released, k) \<longrightarrow>
        (\<exists>s1. worker_step m s = Some s1
           \<and> free_slots_variable s1 = free_slots_variable s + cu k)"
    by (simp add: worker_step_def)
  from c1 c2 c3 c4 c5 c6 show ?thesis by blast
qed

lemma example_fill:
  "fill_generation_queue 1 example_workload zero_timespec 0 (zero_timespec, init_queue)
     = Some (commanded_arrival_time example_first_kernel,
             \<lparr>nodes = [example_first_kernel], size = 1\<rparr>)"
  by (simp add: fill_generation_queue.simps enqueue_def init_queue_def Let_def
      example_first_kernel_def example_workload_def)

lemma example_first_kernel_fields:
  "cu example_first_kernel = 1" "slot_id example_first_kernel = 0"
  "kernel_label example_first_kernel = 3"
  by (simp_all add: example_first_kernel_def aux_kernel_data_def example_workload_def tmp_cu_def)

lemma example_run:
  "\<exists>s. run 1 example_dispatch_run
          (init_system \<lparr>nodes = [example_first_kernel], size = 1\<rparr>
             example_first_kernel example_first_kernel) = Some s
     \<and> sched s = Dispatch \<and> free_slots_variable s = 7
     \<and> slot_id (kernel_tmp s) = 1 \<and> workers s = []"
  by (simp add: example_dispatch_run_def init_system_def producer_step_def sched_step_def
      dequeue_def enqueue_def init_queue_def must_wait_def NUM_SLOTS_def
      dequeue_first_executable_kernel_def example_first_kernel_fields
      select_slots.simps)

theorem slot_conservation_witness:
  "\<exists>s. run 1 example_dispatch_run
          (init_system \<lparr>nodes = [example_first_kernel], size = 1\<rparr>
             example_first_kernel example_first_kernel) = Some s
     \<and> sched s = Dispatch
     \<and> free_slots_variable s = 7
     \<and> live_mask_bits s = 1
     \<and> live_mask_bits s + free_slots_variable s = int NUM_SLOTS"
proof -
  from example_run obtain s where
    r: "run 1 example_dispatch_run
          (init_system \<lparr>nodes = [example_first_kernel], size = 1\<rparr>
             example_first_kernel example_first_kernel) = Some s"
    and f: "sched s = Dispatch" "free_slots_variable s = 7"
      "slot_id (kernel_tmp s) = 1" "workers s = []"
    by blast
  have l: "live_mask_bits s = 1"
    using f by (simp add: live_mask_bits_def live_def popcount_def upt_rec bit_1_iff)
  from slot_conservation[OF example_fill r, of True] f l r show ?thesis
    by auto
qed

subsection \<open>The flag of executable kernels\<close>

lemma sched_step_flag:
  assumes "sched_step nk ok s = Some s1"
  shows "kernels_are_executable_variable s1 =
       (if sched s = Wait_service \<and> kernels_count s < nk \<and> \<not> must_wait s then 0
        else if sched s = Set_executable then 1
        else kernels_are_executable_variable s)"
  using assms
  by (cases "sched s")
     (auto simp: sched_step_def enqueue_and_modify_def split: if_splits prod.splits option.splits)

lemma sched_step_pc:
  assumes "sched_step nk ok s = Some s1"
  shows "sched s1 =
       (case sched s of
          Wait_service \<Rightarrow>
            (if \<not> kernels_count s < nk then Workload_done
             else if must_wait s then Wait_service else Get_dup)
        | Get_dup \<Rightarrow> Scan_queue
        | Scan_queue \<Rightarrow>
            (if fst (dequeue_first_executable_kernel (kernel_execution_queue s)
                       (free_slots_tmp s) (duplicated_kernels_tmp s) (kernel_tmp s)) < 0
             then Wait_service else Set_executable)
        | Set_executable \<Rightarrow> Mark_duplicated
        | Mark_duplicated \<Rightarrow> Reserve_slots
        | Reserve_slots \<Rightarrow> Select_slots
        | Select_slots \<Rightarrow> Dispatch
        | Dispatch \<Rightarrow> Serve
        | Serve \<Rightarrow> Wait_service
        | Workload_done \<Rightarrow> Workload_done)"
  using assms
  by (cases "sched s")
     (auto simp: sched_step_def enqueue_and_modify_def split: if_splits prod.splits option.splits)

lemma sched_step_queue:
  assumes "sched_step nk ok s = Some s1" "sched s \<noteq> Scan_queue"
    "sched s = Wait_service \<longrightarrow> kernels_count s < nk"
  shows "kernel_execution_queue s1 = kernel_execution_queue s"
  using assms
  by (cases "sched s")
     (auto simp: sched_step_def enqueue_and_modify_def split: if_splits prod.splits option.splits)

lemma worker_step_flag:
  assumes "worker_step n s = Some s1"
  shows "sched s1 = sched s \<and> kernels_count s1 = kernels_count s
     \<and> kernels_are_executable_variable s1 =
         (if n < length (workers s) \<and> fst (workers s ! n) = Dup_released then 1
          else kernels_are_executable_variable s)"
proof (cases "length (workers s) \<le> n")
  case True
  with assms show ?thesis by (simp add: worker_step_def)
next
  case False
  obtain p k where w: "workers s ! n = (p, k)" by (cases "workers s ! n") auto
  with False assms show ?thesis
    by (cases p) (auto simp: worker_step_def split: option.splits)
qed

lemma producer_step_flag:
  assumes "producer_step nk ok s = Some s1"
  shows "sched s1 = sched s \<and> kernels_count s1 = kernels_count s
     \<and> kernels_are_executable_variable s1 =
         (if producer s = Notify then 1 else kernels_are_executable_variable s)"
  using assms
  by (cases "producer s")
     (auto simp: producer_step_def dequeue_def enqueue_def split: if_splits list.splits)

lemma env_step_flag:
  assumes "exec nk a s = Some s1" "\<forall>ok. a \<noteq> Sched ok"
  shows "sched s1 = sched s
     \<and> (kernels_are_executable_variable s1 = kernels_are_executable_variable s
         \<or> kernels_are_executable_variable s1 = 1)"
proof (cases a)
  case (Sched x)
  with assms(2) show ?thesis by blast
next
  case (Work n)
  with assms(1) worker_step_flag[of n s s1] show ?thesis by auto
next
  case (Prod x)
  with assms(1) producer_step_flag[of nk x s s1] show ?thesis by auto
next
  case (Mon m)
  with assms(1) show ?thesis by (auto simp: monitor_step_def)
qed

lemma env_run_flag:
  "run nk e s = Some s1 \<Longrightarrow> \<forall>a\<in>set e. \<forall>ok. a \<noteq> Sched ok \<Longrightarrow>
   sched s1 = sched s
     \<and> (kernels_are_executable_variable s1 = kernels_are_executable_variable s
         \<or> kernels_are_executable_variable s1 = 1)"
proof (induction e arbitrary: s)
  case Nil
  then show ?case by simp
next
  case (Cons a e)
  then obtain s2 where e: "exec nk a s = Some s2" and r: "run nk e s2 = Some s1"
    by (auto split: option.splits)
  from Cons.prems(2) have a: "\<forall>ok. a \<noteq> Sched ok" and es: "\<forall>a\<in>set e. \<forall>ok. a \<noteq> Sched ok"
    by simp_all
  from env_step_flag[OF e a] Cons.IH[OF r es] show ?case by auto
qed

lemma run_sched_env:
  assumes "run nk (Sched ok # e) s = Some s1"
  obtains s2 where "sched_step nk ok s = Some s2" "run nk e s2 = Some s1"
  using assms by (auto split: option.splits)

lemma exec_keeps_flag:
  assumes "exec nk a s = Some s1" "kernels_are_executable_variable s = 1"
  shows "kernels_are_executable_variable s1 = 1
     \<or> (\<exists>ok. a = Sched ok \<and> sched s = Wait_service \<and> kernels_count s < nk \<and> \<not> must_wait s)"
proof (cases "\<exists>ok. a = Sched ok")
  case True
  then obtain ok where a: "a = Sched ok" by blast
  with assms(1) have "sched_step nk ok s = Some s1" by simp
  from sched_step_flag[OF this] assms(2) a show ?thesis by (auto split: if_splits)
next
  case False
  then have "\<forall>ok. a \<noteq> Sched ok" by simp
  from env_step_flag[OF assms(1) this] assms(2) show ?thesis by auto
qed

lemma dead_end_iteration:
  assumes s: "sched s = Wait_service" "kernels_count s < nk" "\<not> must_wait s"
    and env: "\<forall>a\<in>set (e1 @ e2 @ e3). \<forall>ok. a \<noteq> Sched ok"
    and r1: "run nk (Sched ok1 # e1) s = Some c1"
    and r2: "run nk (Sched ok2 # e2) c1 = Some d1"
    and r3: "run nk (Sched ok3 # e3) d1 = Some s3"
    and dead: "sched s3 = Wait_service"
  shows "(kernels_are_executable_variable s3 = 0 \<or> kernels_are_executable_variable s3 = 1)
     \<and> (kernels_are_executable_variable c1 = 1 \<or> kernels_are_executable_variable d1 = 1
          \<longrightarrow> kernels_are_executable_variable s3 = 1)
     \<and> (e1 = [] \<and> e2 = [] \<and> e3 = [] \<longrightarrow> kernels_are_executable_variable s3 = 0)"
proof -
  from env have E: "\<forall>a\<in>set e1. \<forall>ok. a \<noteq> Sched ok" "\<forall>a\<in>set e2. \<forall>ok. a \<noteq> Sched ok"
    "\<forall>a\<in>set e3. \<forall>ok. a \<noteq> Sched ok" by simp_all
  from r1 obtain c where c: "sched_step nk ok1 s = Some c" and rc: "run nk e1 c = Some c1"
    by (rule run_sched_env)
  from sched_step_flag[OF c] sched_step_pc[OF c] s
  have c0: "kernels_are_executable_variable c = 0" and cp: "sched c = Get_dup" by simp_all
  from env_run_flag[OF rc E(1)] c0 cp
  have c1p: "sched c1 = Get_dup"
    and c1f: "kernels_are_executable_variable c1 = 0 \<or> kernels_are_executable_variable c1 = 1"
    and c1e: "e1 = [] \<longrightarrow> kernels_are_executable_variable c1 = 0"
    using rc by auto
  from r2 obtain d where d: "sched_step nk ok2 c1 = Some d" and rd: "run nk e2 d = Some d1"
    by (rule run_sched_env)
  from sched_step_flag[OF d] sched_step_pc[OF d] c1p
  have df: "kernels_are_executable_variable d = kernels_are_executable_variable c1"
    and dp: "sched d = Scan_queue" by simp_all
  from env_run_flag[OF rd E(2)] df dp
  have d1p: "sched d1 = Scan_queue"
    and d1f: "kernels_are_executable_variable d1 = kernels_are_executable_variable c1
        \<or> kernels_are_executable_variable d1 = 1"
    and d1e: "e2 = [] \<longrightarrow> kernels_are_executable_variable d1 = kernels_are_executable_variable c1"
    using rd by auto
  from r3 obtain f where f: "sched_step nk ok3 d1 = Some f" and rf: "run nk e3 f = Some s3"
    by (rule run_sched_env)
  from sched_step_flag[OF f] d1p
  have ff: "kernels_are_executable_variable f = kernels_are_executable_variable d1" by simp
  from env_run_flag[OF rf E(3)] ff
  have s3f: "kernels_are_executable_variable s3 = kernels_are_executable_variable d1
        \<or> kernels_are_executable_variable s3 = 1"
    and s3e: "e3 = [] \<longrightarrow> kernels_are_executable_variable s3 = kernels_are_executable_variable d1"
    using rf by auto
  from c1f c1e d1f d1e s3f s3e show ?thesis by auto
qed

text \<open>
  Claim C5.  The writes of \<^verbatim>\<open>queue_manager_thread\<close> to
  \<^verbatim>\<open>kernels_are_executable_variable\<close>, by program point: the flag is cleared by the
  step that leaves the wait (and by no other step), before the step that scans the queue;
  it is set to 1 by the step after a successful scan (and by no other step of the
  scheduler); every other step of the scheduler, the scan and the return to the wait on
  a dead end among them, leaves it as it is, and the scan is the only step that changes the
  execution queue while there are kernels left to dispatch.  No step of the producer, of a worker or of the monitor takes the
  flag from 1 to another value: only the scheduler's clear does.  So in an iteration that
  dead-ends (clear, snapshot of the table, scan, each followed by any steps of the other
  threads) the flag ends at 0 or 1, it ends at 1 if another thread had set it after the
  clear, and it ends at 0 if no other thread ran.
\<close>

theorem flag_discipline:
  "(sched_step nk ok s = Some s1 \<longrightarrow>
      kernels_are_executable_variable s1 =
        (if sched s = Wait_service \<and> kernels_count s < nk \<and> \<not> must_wait s then 0
         else if sched s = Set_executable then 1
         else kernels_are_executable_variable s)
    \<and> sched s1 =
        (case sched s of
           Wait_service \<Rightarrow>
             (if \<not> kernels_count s < nk then Workload_done
              else if must_wait s then Wait_service else Get_dup)
         | Get_dup \<Rightarrow> Scan_queue
         | Scan_queue \<Rightarrow>
             (if fst (dequeue_first_executable_kernel (kernel_execution_queue s)
                        (free_slots_tmp s) (duplicated_kernels_tmp s) (kernel_tmp s)) < 0
              then Wait_service else Set_executable)
         | Set_executable \<Rightarrow> Mark_duplicated
         | Mark_duplicated \<Rightarrow> Reserve_slots
         | Reserve_slots \<Rightarrow> Select_slots
         | Select_slots \<Rightarrow> Dispatch
         | Dispatch \<Rightarrow> Serve
         | Serve \<Rightarrow> Wait_service
         | Workload_done \<Rightarrow> Workload_done)
    \<and> (sched s \<noteq> Scan_queue \<and> (sched s = Wait_service \<longrightarrow> kernels_count s < nk)
         \<longrightarrow> kernel_execution_queue s1 = kernel_execution_queue s))
   \<and> (exec nk a t = Some t1 \<and> kernels_are_executable_variable t = 1 \<longrightarrow>
        kernels_are_executable_variable t1 = 1
        \<or> (\<exists>ok. a = Sched ok \<and> sched t = Wait_service \<and> kernels_count t < nk \<and> \<not> must_wait t))
   \<and> (sched u = Wait_service \<and> kernels_count u < nk \<and> \<not> must_wait u
        \<and> (\<forall>a\<in>set (e1 @ e2 @ e3). \<forall>ok. a \<noteq> Sched ok)
        \<and> run nk (Sched ok1 # e1) u = Some c1
        \<and> run nk (Sched ok2 # e2) c1 = Some d1
        \<and> run nk (Sched ok3 # e3) d1 = Some u3
        \<and> sched u3 = Wait_service \<longrightarrow>
        (kernels_are_executable_variable u3 = 0 \<or> kernels_are_executable_variable u3 = 1)
        \<and> (kernels_are_executable_variable c1 = 1 \<or> kernels_are_executable_variable d1 = 1
             \<longrightarrow> kernels_are_executable_variable u3 = 1)
        \<and> (e1 = [] \<and> e2 = [] \<and> e3 = [] \<longrightarrow> kernels_are_executable_variable u3 = 0))"
  using sched_step_flag[of nk ok s s1] sched_step_pc[of nk ok s s1]
    sched_step_queue[of nk ok s s1] exec_keeps_flag[of nk a t t1]
    dead_end_iteration[of u nk e1 e2 e3 ok1 c1 ok2 d1 ok3 u3]
  by blast

lemma example_release: "release_slots 0 0 1 1 [1, 0, 0, 0, 0, 0, 0, 0] = Some [0, 0, 0, 0, 0, 0, 0, 0]"
  by (simp add: release_slots.simps NUM_SLOTS_def word_sless_alt)

lemma replicate_eight: "replicate 8 (0::int) = [0, 0, 0, 0, 0, 0, 0, 0]"
  by (simp add: eval_nat_numeral)

lemma example_flag_run:
  "\<exists>u c1 d1 u3.
       run 2 example_first_dispatch
         (init_system example_two_kernels example_first_kernel example_first_kernel) = Some u
     \<and> sched u = Wait_service \<and> kernels_count u < 2 \<and> \<not> must_wait u
     \<and> run 2 [Sched True] u = Some c1
     \<and> run 2 [Sched True, Work 0, Work 0, Work 0] c1 = Some d1
     \<and> run 2 [Sched True] d1 = Some u3
     \<and> sched u3 = Wait_service
     \<and> kernels_are_executable_variable c1 = 0
     \<and> kernels_are_executable_variable d1 = 1
     \<and> nodes (kernel_execution_queue u3) = [example_first_kernel]"
proof -
  let ?k = "example_first_kernel\<lparr>temp_id := 0, slot_id := 1\<rparr>"
  have "\<exists>u. run 2 example_first_dispatch
         (init_system example_two_kernels example_first_kernel example_first_kernel) = Some u
     \<and> sched u = Wait_service \<and> kernels_count u = 1 \<and> kernels_to_serve_variable u = 1
     \<and> kernels_are_executable_variable u = 1 \<and> free_slots_variable u = 7
     \<and> operating_mode u = EXECUTION \<and> duplicated_kernel_variable u 3 = 1
     \<and> nodes (kernel_execution_queue u) = [example_first_kernel]
     \<and> workers u = [(Executing, ?k)]
     \<and> slots_in_use u = [1, 0, 0, 0, 0, 0, 0, 0]"
    by (simp add: example_first_dispatch_def example_two_kernels_def init_system_def
      producer_step_def sched_step_def
      dequeue_def enqueue_def enqueue_and_modify_def init_queue_def must_wait_def NUM_SLOTS_def
      dequeue_first_executable_kernel_def example_first_kernel_fields
      select_slots.simps replicate_eight)
  then obtain u where
    r: "run 2 example_first_dispatch
         (init_system example_two_kernels example_first_kernel example_first_kernel) = Some u"
    and u: "sched u = Wait_service" "kernels_count u = 1" "kernels_to_serve_variable u = 1"
      "kernels_are_executable_variable u = 1" "free_slots_variable u = 7"
      "operating_mode u = EXECUTION" "duplicated_kernel_variable u 3 = 1"
      "nodes (kernel_execution_queue u) = [example_first_kernel]"
      "workers u = [(Executing, ?k)]"
      "slots_in_use u = [1, 0, 0, 0, 0, 0, 0, 0]"
    by blast
  have nw: "\<not> must_wait u" using u by (simp add: must_wait_def)
  have "\<exists>c1. run 2 [Sched True] u = Some c1
     \<and> sched c1 = Get_dup \<and> kernels_are_executable_variable c1 = 0
     \<and> free_slots_tmp c1 = 7 \<and> duplicated_kernel_variable c1 3 = 1
     \<and> nodes (kernel_execution_queue c1) = [example_first_kernel]
     \<and> workers c1 = [(Executing, ?k)]
     \<and> slots_in_use c1 = [1, 0, 0, 0, 0, 0, 0, 0]"
    using u nw by (simp add: sched_step_def)
  then obtain c1 where r1: "run 2 [Sched True] u = Some c1"
    and c: "sched c1 = Get_dup" "kernels_are_executable_variable c1 = 0"
      "free_slots_tmp c1 = 7" "duplicated_kernel_variable c1 3 = 1"
      "nodes (kernel_execution_queue c1) = [example_first_kernel]"
      "workers c1 = [(Executing, ?k)]"
      "slots_in_use c1 = [1, 0, 0, 0, 0, 0, 0, 0]"
    by blast
  have "\<exists>d1. run 2 [Sched True, Work 0, Work 0, Work 0] c1 = Some d1
     \<and> sched d1 = Scan_queue \<and> kernels_are_executable_variable d1 = 1
     \<and> free_slots_tmp d1 = 7 \<and> duplicated_kernels_tmp d1 3 = 1
     \<and> nodes (kernel_execution_queue d1) = [example_first_kernel]"
    using c by (simp add: sched_step_def worker_step_def example_first_kernel_fields
        example_release)
  then obtain d1 where r2: "run 2 [Sched True, Work 0, Work 0, Work 0] c1 = Some d1"
    and d: "sched d1 = Scan_queue" "kernels_are_executable_variable d1 = 1"
      "free_slots_tmp d1 = 7" "duplicated_kernels_tmp d1 3 = 1"
      "nodes (kernel_execution_queue d1) = [example_first_kernel]"
    by blast
  have "\<exists>u3. run 2 [Sched True] d1 = Some u3 \<and> sched u3 = Wait_service
     \<and> nodes (kernel_execution_queue u3) = [example_first_kernel]"
    using d by (simp add: sched_step_def dequeue_first_executable_kernel_def
        example_first_kernel_fields)
  then obtain u3 where r3: "run 2 [Sched True] d1 = Some u3"
    and f: "sched u3 = Wait_service" "nodes (kernel_execution_queue u3) = [example_first_kernel]"
    by blast
  from r u(1,2) nw r1 r2 r3 f c(2) d(2) show ?thesis by auto
qed

theorem flag_discipline_witness:
  "\<exists>u c1 d1 u3.
       run 2 example_first_dispatch
         (init_system example_two_kernels example_first_kernel example_first_kernel) = Some u
     \<and> sched u = Wait_service
     \<and> run 2 [Sched True] u = Some c1
     \<and> sched c1 = Get_dup
     \<and> kernels_are_executable_variable c1 = 0
     \<and> kernel_execution_queue c1 = kernel_execution_queue u
     \<and> run 2 [Sched True, Work 0, Work 0, Work 0] c1 = Some d1
     \<and> kernels_are_executable_variable d1 = 1
     \<and> run 2 [Sched True] d1 = Some u3
     \<and> sched u3 = Wait_service
     \<and> kernels_are_executable_variable u3 = 1
     \<and> nodes (kernel_execution_queue u3) = [example_first_kernel]"
proof -
  from example_flag_run obtain u c1 d1 u3 where
    r: "run 2 example_first_dispatch
         (init_system example_two_kernels example_first_kernel example_first_kernel) = Some u"
    and u: "sched u = Wait_service" "kernels_count u < 2" "\<not> must_wait u"
    and r1: "run 2 [Sched True] u = Some c1"
    and r2: "run 2 [Sched True, Work 0, Work 0, Work 0] c1 = Some d1"
    and r3: "run 2 [Sched True] d1 = Some u3"
    and f: "sched u3 = Wait_service" "kernels_are_executable_variable c1 = 0"
      "kernels_are_executable_variable d1 = 1"
      "nodes (kernel_execution_queue u3) = [example_first_kernel]"
    by blast
  have env: "\<forall>a\<in>set ([] @ [Work 0, Work 0, Work 0] @ []). \<forall>ok. a \<noteq> Sched ok" by simp
  from r1 have s1: "sched_step 2 True u = Some c1" by (simp split: option.splits)
  from r3 have s3: "exec 2 (Sched True) d1 = Some u3" by (simp split: option.splits)
  have w: "Wait_service \<noteq> Scan_queue" by simp
  from flag_discipline[of 2 True u c1 "Sched True" d1 u3 u "[]" "[Work 0, Work 0, Work 0]" "[]"
      True c1 True d1 True u3] u env s1 s3 r1 r2 r3 f w
  have "sched c1 = Get_dup \<and> kernel_execution_queue c1 = kernel_execution_queue u
      \<and> kernels_are_executable_variable u3 = 1"
    by simp
  with r u r1 r2 r3 f show ?thesis by blast
qed

subsection \<open>The selection of the slots in the scheduler\<close>

text \<open>
  Claim C6.  In every state reached by any interleaving of the steps of the producer, the
  scheduler, the workers and the monitor in which the scheduler is about to assign the
  slots of the record it has dequeued: the record has a width \<open>cu\<close> of at least 1 and
  the slot mask 0 the producer gave it, at least \<open>cu\<close> entries of
  \<^verbatim>\<open>slots_in_use\<close> are 0, and the step marks as in use exactly the \<open>cu\<close>
  lowest-indexed free slots (the first \<open>cu\<close> free indices in increasing order),
  leaves the other entries as they were, and sets exactly those bit positions in the
  record's slot mask, whose popcount is then \<open>cu\<close>.
\<close>

theorem select_slots_lowest_free:
  assumes "fill_generation_queue n w t0 0 (t0, init_queue) = Some (tm, gq)"
    and "run nk acts (init_system gq k0 a0) = Some s"
    and "sched s = Select_slots"
  shows "\<exists>s1. sched_step nk ok s = Some s1
     \<and> sched s1 = Dispatch
     \<and> cu (kernel_tmp s1) = cu (kernel_tmp s)
     \<and> 1 \<le> cu (kernel_tmp s)
     \<and> slot_id (kernel_tmp s) = 0
     \<and> cu (kernel_tmp s) \<le> int (length (filter (\<lambda>x. x = 0) (slots_in_use s)))
     \<and> length (lowest_free (nat (cu (kernel_tmp s))) (slots_in_use s)) = nat (cu (kernel_tmp s))
     \<and> sorted (lowest_free (nat (cu (kernel_tmp s))) (slots_in_use s))
     \<and> distinct (lowest_free (nat (cu (kernel_tmp s))) (slots_in_use s))
     \<and> (\<forall>i<NUM_SLOTS. slots_in_use s1 ! i =
           (if i \<in> set (lowest_free (nat (cu (kernel_tmp s))) (slots_in_use s)) then 1
            else slots_in_use s ! i))
     \<and> (\<forall>i. bit (slot_id (kernel_tmp s1)) i
             = (i \<in> set (lowest_free (nat (cu (kernel_tmp s))) (slots_in_use s))))
     \<and> popcount (slot_id (kernel_tmp s1)) = nat (cu (kernel_tmp s))"
proof -
  let ?kt = "kernel_tmp s"
  let ?slots = "slots_in_use s"
  let ?F = "lowest_free (nat (cu ?kt)) ?slots"
  from reachable_inv[OF assms(1,2)] have I: "slot_inv s" .
  then have T: "inv_table ?slots (workers s) Select_slots ?kt"
    and R: "inv_records (workers s) Select_slots ?kt
           (nodes (kernel_execution_queue s)) (nodes (kernel_generation_queue s))"
    and A: "inv_account (free_slots_variable s) (free_slots_tmp s) (workers s) Select_slots ?kt"
    using assms(3) by (simp_all add: slot_inv_def)
  from R have fr: "fresh ?kt" by (simp add: inv_records_def holds_fresh_def)
  then have cu1: "1 \<le> cu ?kt" and s0: "slot_id ?kt = 0" by (simp_all add: fresh_def)
  from T have len: "length ?slots = NUM_SLOTS"
    and zer: "int (length (filter (\<lambda>x. x = 0) ?slots)) + cu_where (\<lambda>p. p = Executing) (workers s)
        = int NUM_SLOTS"
    by (simp_all add: inv_table_def occupancy_def held_cu_def)
  from A have acc: "free_slots_variable s + cu_where (\<lambda>p. p = Executing) (workers s)
        + returning_cu (workers s) + cu ?kt = int NUM_SLOTS"
    and f0: "0 \<le> free_slots_variable s"
    by (simp_all add: inv_account_def held_cu_def reserved_cu_def)
  from returning_nonneg[OF R] have r0: "0 \<le> returning_cu (workers s)" .
  from zer acc f0 r0 have enough: "cu ?kt \<le> int (length (filter (\<lambda>x. x = 0) ?slots))"
    by linarith
  have n: "int (nat (cu ?kt)) \<le> int (length (filter (\<lambda>x. x = 0) ?slots))"
    using enough cu1 by simp
  note P = lowest_free_props[OF len n]
  obtain slots1 sid1 where sel: "select_slots 0 0 (cu ?kt) ?slots (slot_id ?kt) = (slots1, sid1)"
    by (metis surj_pair)
  from select_slots_effect[OF len cu1 enough, of "slot_id ?kt"] sel s0
  have v: "\<forall>i<NUM_SLOTS. slots1 ! i = (if i \<in> set ?F then 1 else ?slots ! i)"
    and b: "\<forall>i. bit sid1 i = (i \<in> set ?F)"
    and p: "popcount sid1 = nat (cu ?kt)"
    by simp_all
  have st: "sched_step nk ok s
      = Some (s\<lparr>slots_in_use := slots1, kernel_tmp := ?kt\<lparr>slot_id := sid1\<rparr>, sched := Dispatch\<rparr>)"
    using assms(3) sel by (simp add: sched_step_def)
  show ?thesis
    unfolding st using cu1 s0 enough P(1,2,3) v b p by simp
qed

lemma example_mixed_fill:
  "fill_generation_queue 2 example_mixed_workload zero_timespec 0 (zero_timespec, init_queue)
     = Some (commanded_arrival_time example_wide_kernel,
             \<lparr>nodes = [example_narrow_kernel, example_wide_kernel], size = 2\<rparr>)"
  by (simp add: fill_generation_queue.simps enqueue_def init_queue_def Let_def
      example_narrow_kernel_def example_wide_kernel_def example_mixed_workload_def)

lemma example_mixed_fields:
  "cu example_narrow_kernel = 1" "slot_id example_narrow_kernel = 0"
  "kernel_label example_narrow_kernel = 0"
  "cu example_wide_kernel = 2" "slot_id example_wide_kernel = 0"
  "kernel_label example_wide_kernel = 1"
  by (simp_all add: example_narrow_kernel_def example_wide_kernel_def aux_kernel_data_def
      example_mixed_workload_def tmp_cu_def)

lemma example_mixed_run:
  "\<exists>s. run 2 example_second_reservation
          (init_system \<lparr>nodes = [example_narrow_kernel, example_wide_kernel], size = 2\<rparr>
             example_narrow_kernel example_narrow_kernel) = Some s
     \<and> sched s = Select_slots
     \<and> kernel_tmp s = example_wide_kernel\<lparr>temp_id := 1\<rparr>
     \<and> slots_in_use s = [1, 0, 0, 0, 0, 0, 0, 0]"
  by (simp add: example_second_reservation_def init_system_def producer_step_def sched_step_def
      dequeue_def enqueue_def enqueue_and_modify_def init_queue_def must_wait_def NUM_SLOTS_def
      dequeue_first_executable_kernel_def example_mixed_fields select_slots.simps replicate_eight)

theorem select_slots_lowest_free_witness:
  "\<exists>s s1. run 2 example_second_reservation
          (init_system \<lparr>nodes = [example_narrow_kernel, example_wide_kernel], size = 2\<rparr>
             example_narrow_kernel example_narrow_kernel) = Some s
     \<and> sched s = Select_slots
     \<and> cu (kernel_tmp s) = 2
     \<and> slots_in_use s = [1, 0, 0, 0, 0, 0, 0, 0]
     \<and> lowest_free 2 (slots_in_use s) = [1, 2]
     \<and> sched_step 2 True s = Some s1
     \<and> slots_in_use s1 = [1, 1, 1, 0, 0, 0, 0, 0]
     \<and> slot_id (kernel_tmp s1) = 6
     \<and> popcount (slot_id (kernel_tmp s1)) = 2"
proof -
  from example_mixed_run obtain s where
    r: "run 2 example_second_reservation
          (init_system \<lparr>nodes = [example_narrow_kernel, example_wide_kernel], size = 2\<rparr>
             example_narrow_kernel example_narrow_kernel) = Some s"
    and f: "sched s = Select_slots" "kernel_tmp s = example_wide_kernel\<lparr>temp_id := 1\<rparr>"
      "slots_in_use s = [1, 0, 0, 0, 0, 0, 0, 0]"
    by blast
  have c: "cu (kernel_tmp s) = 2" using f(2) by (simp add: example_mixed_fields)
  have l: "lowest_free 2 (slots_in_use s) = [1, 2]"
    unfolding f(3) by (simp add: lowest_free_def NUM_SLOTS_def upt_rec)
  have e: "sched_step 2 True s
      = Some (s\<lparr>slots_in_use := [1, 1, 1, 0, 0, 0, 0, 0],
                kernel_tmp := (kernel_tmp s)\<lparr>slot_id := 6\<rparr>, sched := Dispatch\<rparr>)"
    using f by (simp add: sched_step_def select_slots.simps NUM_SLOTS_def example_mixed_fields)
  from select_slots_lowest_free[OF example_mixed_fill r f(1), of True]
  have "popcount (slot_id (kernel_tmp
      (s\<lparr>slots_in_use := [1, 1, 1, 0, 0, 0, 0, 0],
                kernel_tmp := (kernel_tmp s)\<lparr>slot_id := 6\<rparr>, sched := Dispatch\<rparr>))) = 2"
    unfolding e c by simp
  with r f c l e show ?thesis by simp
qed

end
